theory Spec2Isabelle
  imports Main "HOL-Library.Word" "HOL-Library.Multiset" "HOL-Library.While_Combinator"
begin

unbundle bit_operations_syntax

section \<open>Data model of the linked-list kernel\<close>

text \<open>
  The C sources use the fixed-width types of the porting layer.  Signed and unsigned
  types of one width share a word type here; the sign is chosen where a value is read
  (\<open>sint\<close> for the signed types, \<open>uint\<close>/\<open>unat\<close> for the unsigned ones).
\<close>

type_synonym ee_u8 = "8 word"
type_synonym ee_s16 = "16 word"
type_synonym ee_u16 = "16 word"
type_synonym ee_s32 = "32 word"
type_synonym ee_u32 = "32 word"

text \<open>
  \<open>struct list_data_s\<close>: the payload of a list cell, two 16-bit signed fields.
\<close>

record list_data =
  data16 :: ee_s16
  idx :: ee_s16

text \<open>
  A \<open>list_head *\<close> is either \<open>NULL\<close> (\<open>None\<close>) or the address of a cell.  Cells and
  payload records live in two arrays carved from one block; an address is the index of
  the slot in its array.  The heap keeps the two fields of \<open>struct list_head_s\<close> as
  two functions on cell addresses (\<open>item->next\<close>, \<open>item->info\<close>) and the records as a
  function on record addresses, so that assignments through aliased pointers are
  function updates.
\<close>

type_synonym ptr = "nat option"

record heap =
  nxt :: "nat \<Rightarrow> ptr"
  info :: "nat \<Rightarrow> nat"
  dat :: "nat \<Rightarrow> list_data"

text \<open>
  \<open>chain nx p as q\<close>: following \<open>next\<close> from \<open>p\<close> visits exactly the cells \<open>as\<close> and
  arrives at \<open>q\<close>.  A list in the sense of the benchmark is a chain that ends in
  \<open>NULL\<close>.
\<close>

primrec chain :: "(nat \<Rightarrow> ptr) \<Rightarrow> ptr \<Rightarrow> nat list \<Rightarrow> ptr \<Rightarrow> bool" where
  "chain nx p [] q = (p = q)"
| "chain nx p (a # as) q = (p = Some a \<and> chain nx (nx a) as q)"

definition is_list :: "heap \<Rightarrow> ptr \<Rightarrow> nat list \<Rightarrow> bool" where
  "is_list h p as = (chain (nxt h) p as None \<and> distinct as)"

text \<open>The records owned by the cells of a chain, in chain order.\<close>

definition records :: "heap \<Rightarrow> nat list \<Rightarrow> list_data list" where
  "records h as = map (\<lambda>a. dat h (info h a)) as"

text \<open>A memory with nothing in it.\<close>

definition blank_heap :: heap where
  "blank_heap = \<lparr>nxt = (\<lambda>n. None), info = (\<lambda>n. 0), dat = (\<lambda>n. \<lparr>data16 = 0, idx = 0\<rparr>)\<rparr>"

section \<open>CRC service functions\<close>

text \<open>
  \<open>crcu8\<close>: eight rounds of the bit-serial update.  The loop counter is not used in the
  body, so the model counts the remaining rounds.
\<close>

fun crcu8_loop :: "nat \<Rightarrow> ee_u8 \<Rightarrow> ee_u16 \<Rightarrow> ee_u16" where
  "crcu8_loop 0 data crc = crc"
| "crcu8_loop (Suc n) data crc =
     (let x16 = (data AND 1) XOR ((ucast crc :: ee_u8) AND 1);
          data' = drop_bit 1 data;
          crc1 = (if x16 = 1 then crc XOR 0x4002 else crc);
          crc2 = drop_bit 1 crc1;
          crc3 = (if x16 = 1 then crc2 OR 0x8000 else crc2 AND 0x7fff)
      in crcu8_loop n data' crc3)"

definition crcu8 :: "ee_u8 \<Rightarrow> ee_u16 \<Rightarrow> ee_u16" where
  "crcu8 data crc = crcu8_loop 8 data crc"

definition crcu16 :: "ee_u16 \<Rightarrow> ee_u16 \<Rightarrow> ee_u16" where
  "crcu16 newval crc = crcu8 (ucast (drop_bit 8 newval)) (crcu8 (ucast newval) crc)"

definition crc16 :: "ee_s16 \<Rightarrow> ee_u16 \<Rightarrow> ee_u16" where
  "crc16 newval crc = crcu16 newval crc"

definition crcu32 :: "ee_u32 \<Rightarrow> ee_u16 \<Rightarrow> ee_u16" where
  "crcu32 newval crc = crc16 (ucast (drop_bit 16 newval)) (crc16 (ucast newval) crc)"

section \<open>Allocation from the block: \<open>core_list_insert_new\<close>\<close>

text \<open>\<open>copy_info\<close> writes both fields of the record at \<open>to\<close>.\<close>

definition copy_info :: "(nat \<Rightarrow> list_data) \<Rightarrow> nat \<Rightarrow> list_data \<Rightarrow> (nat \<Rightarrow> list_data)" where
  "copy_info d to from = d(to := (d to)\<lparr>data16 := data16 from, idx := idx from\<rparr>)"

text \<open>
  The state that \<open>core_list_insert_new\<close> can change: the heap and the two cursors
  \<open>*memblock\<close> and \<open>*datablock\<close>.  The function returns the new cell or \<open>NULL\<close>; the
  outer \<open>option\<close> is \<open>None\<close> when \<open>insert_point\<close> is dereferenced while \<open>NULL\<close>.
\<close>

record alloc =
  hp :: heap
  memblock :: nat
  datablock :: nat

definition core_list_insert_new ::
  "ptr \<Rightarrow> list_data \<Rightarrow> alloc \<Rightarrow> nat \<Rightarrow> nat \<Rightarrow> (ptr \<times> alloc) option" where
  "core_list_insert_new insert_point info_in s memblock_end datablock_end =
     (if memblock s + 1 \<ge> memblock_end then Some (None, s)
      else if datablock s + 1 \<ge> datablock_end then Some (None, s)
      else (case insert_point of
              None \<Rightarrow> None
            | Some ip \<Rightarrow>
                let newitem = memblock s;
                    h = hp s;
                    nx1 = (nxt h)(newitem := nxt h ip);
                    nx2 = nx1(ip := Some newitem);
                    inf1 = (info h)(newitem := datablock s);
                    d1 = copy_info (dat h) (inf1 newitem) info_in
                in Some (Some newitem,
                         \<lparr>hp = \<lparr>nxt = nx2, info = inf1, dat = d1\<rparr>,
                          memblock = memblock s + 1,
                          datablock = datablock s + 1\<rparr>)))"

section \<open>Mutators\<close>

text \<open>
  \<open>core_list_remove\<close> and \<open>core_list_undo_remove\<close>: the assignments of the C bodies in
  their order, each reading the heap left by the previous one.  Dereferencing \<open>NULL\<close>
  (the item itself, or its missing successor) gives \<open>None\<close>.
\<close>

definition core_list_remove :: "heap \<Rightarrow> ptr \<Rightarrow> (ptr \<times> heap) option" where
  "core_list_remove h item =
     (case item of
        None \<Rightarrow> None
      | Some it \<Rightarrow>
          (case nxt h it of
             None \<Rightarrow> None
           | Some ret \<Rightarrow>
               let tmp = info h it;
                   inf1 = (info h)(it := info h ret);
                   inf2 = inf1(ret := tmp);
                   nx1 = (nxt h)(it := nxt h ret);
                   nx2 = nx1(ret := None)
               in Some (Some ret, h\<lparr>nxt := nx2, info := inf2\<rparr>)))"

definition core_list_undo_remove :: "heap \<Rightarrow> ptr \<Rightarrow> ptr \<Rightarrow> (ptr \<times> heap) option" where
  "core_list_undo_remove h item_removed item_modified =
     (case (item_removed, item_modified) of
        (Some r, Some m) \<Rightarrow>
          let tmp = info h r;
              inf1 = (info h)(r := info h m);
              inf2 = inf1(m := tmp);
              nx1 = (nxt h)(r := nxt h m);
              nx2 = nx1(m := Some r)
          in Some (Some r, h\<lparr>nxt := nx2, info := inf2\<rparr>)
      | _ \<Rightarrow> None)"

text \<open>
  \<open>core_list_find\<close>: two loops over \<open>list\<close>, chosen by the sign of the criteria's
  \<open>idx\<close>.  Each is a \<open>while\<close> with its condition and its body
  \<open>list = list->next\<close>; the body runs only where the condition has found \<open>list\<close>
  not to be \<open>NULL\<close>.  The second loop compares the low byte of the cell's \<open>data16\<close>
  (an \<open>int\<close> between 0 and 255 after the integer promotion) with the criteria's whole
  \<open>data16\<close>.  \<open>while_option\<close> is \<open>None\<close> for a loop that does not end.
\<close>

definition idx_differs :: "heap \<Rightarrow> list_data \<Rightarrow> ptr \<Rightarrow> bool" where
  "idx_differs h info_in list =
     (case list of None \<Rightarrow> False | Some a \<Rightarrow> idx (dat h (info h a)) \<noteq> idx info_in)"

definition data_differs :: "heap \<Rightarrow> list_data \<Rightarrow> ptr \<Rightarrow> bool" where
  "data_differs h info_in list =
     (case list of
        None \<Rightarrow> False
      | Some a \<Rightarrow> uint (data16 (dat h (info h a)) AND 0xff) \<noteq> sint (data16 info_in))"

definition next_of :: "heap \<Rightarrow> ptr \<Rightarrow> ptr" where
  "next_of h list = (case list of None \<Rightarrow> None | Some a \<Rightarrow> nxt h a)"

definition core_list_find :: "heap \<Rightarrow> ptr \<Rightarrow> list_data \<Rightarrow> ptr option" where
  "core_list_find h list info_in =
     (if 0 \<le> sint (idx info_in)
      then while_option (idx_differs h info_in) (next_of h) list
      else while_option (data_differs h info_in) (next_of h) list)"

text \<open>\<open>core_list_reverse\<close>: the loop over \<open>list\<close> with the accumulator \<open>next\<close>.\<close>

partial_function (option) reverse_loop ::
  "(nat \<Rightarrow> ptr) \<Rightarrow> ptr \<Rightarrow> ptr \<Rightarrow> (ptr \<times> (nat \<Rightarrow> ptr)) option" where
  "reverse_loop nx list next_p =
     (case list of
        None \<Rightarrow> Some (next_p, nx)
      | Some a \<Rightarrow> reverse_loop (nx(a := next_p)) (nx a) (Some a))"

declare reverse_loop.simps [code]

definition core_list_reverse :: "heap \<Rightarrow> ptr \<Rightarrow> (ptr \<times> heap) option" where
  "core_list_reverse h list =
     (case reverse_loop (nxt h) list None of
        None \<Rightarrow> None
      | Some (r, nx) \<Rightarrow> Some (r, h\<lparr>nxt := nx\<rparr>))"

section \<open>Comparators\<close>

text \<open>
  A \<open>list_cmp\<close> receives the addresses of two records and the context pointer \<open>res\<close>.
  It may write to the records and to the context, so the model passes the record store
  and the context in and gets them back with the \<open>ee_s32\<close> result.
\<close>

type_synonym 'r list_cmp =
  "nat \<Rightarrow> nat \<Rightarrow> 'r \<Rightarrow> (nat \<Rightarrow> list_data) \<Rightarrow> ee_s32 \<times> (nat \<Rightarrow> list_data) \<times> 'r"

text \<open>
  \<open>cmp_idx\<close>: with \<open>res == NULL\<close> the low byte of each \<open>data16\<close> is regenerated from the
  high byte, first for \<open>a\<close>, then for \<open>b\<close>; the result is the difference of the two
  \<open>idx\<close> fields, computed after promotion to \<open>int\<close>.  The shift acts on the promoted
  value and only bits 8 to 15 survive the mask, so it is the logical shift of the
  16-bit pattern.
\<close>

definition regen_data :: "ee_s16 \<Rightarrow> ee_s16" where
  "regen_data x = (x AND 0xff00) OR (0x00ff AND drop_bit 8 x)"

definition cmp_idx :: "'c option list_cmp" where
  "cmp_idx a b res d =
     (let d1 = (if res = None then d(a := (d a)\<lparr>data16 := regen_data (data16 (d a))\<rparr>) else d);
          d2 = (if res = None then d1(b := (d1 b)\<lparr>data16 := regen_data (data16 (d1 b))\<rparr>)
                else d1)
      in (scast (idx (d2 a)) - scast (idx (d2 b)), d2, res))"

section \<open>The iterative merge sort\<close>

text \<open>
  The local variables of \<open>core_list_mergesort\<close>, with the heap and the comparator's
  context \<open>res\<close>, form the state that its loops transform.  The counters are \<open>ee_s32\<close>
  in the source; the model keeps them as integers.  \<open>i\<close> stays below \<open>insize\<close> and
  \<open>psize\<close> never exceeds it, and \<open>psize\<close> and \<open>qsize\<close> are decremented only while
  positive, so only \<open>nmerges++\<close> and \<open>insize *= 2\<close> could leave the range of
  \<open>ee_s32\<close>; there the model gives \<open>None\<close>, as it does for a dereferenced \<open>NULL\<close>
  and for a loop that does not end.
\<close>

record 'r sort_state =
  mem :: heap
  ctx :: 'r
  list_ptr :: ptr
  p_ptr :: ptr
  q_ptr :: ptr
  tail_ptr :: ptr
  insize :: int
  nmerges :: int
  psize :: int
  qsize :: int
  i_cnt :: int

definition s32_max :: int where
  "s32_max = 2147483647"

text \<open>
  The \<open>for\<close> loop that steps \<open>q\<close> at most \<open>insize\<close> places along:
  \<open>psize++; q = q->next; if (!q) break;\<close>
\<close>

partial_function (option) step_q :: "'r sort_state \<Rightarrow> 'r sort_state option" where
  "step_q s =
     (if i_cnt s < insize s then
        (case q_ptr s of
           None \<Rightarrow> None
         | Some qa \<Rightarrow>
             if nxt (mem s) qa = None
             then Some (s\<lparr>psize := psize s + 1, q_ptr := None\<rparr>)
             else step_q (s\<lparr>psize := psize s + 1, q_ptr := nxt (mem s) qa,
                             i_cnt := i_cnt s + 1\<rparr>))
      else Some s)"

declare step_q.simps [code]

text \<open>
  Adding \<open>e\<close> to the merged list: \<open>tail->next = e\<close>, or \<open>list = e\<close> when there is no
  tail yet; then \<open>tail = e\<close>.
\<close>

definition add_merged :: "nat \<Rightarrow> 'r sort_state \<Rightarrow> 'r sort_state" where
  "add_merged e s =
     (case tail_ptr s of
        Some t \<Rightarrow> s\<lparr>mem := (mem s)\<lparr>nxt := (nxt (mem s))(t := Some e)\<rparr>, tail_ptr := Some e\<rparr>
      | None \<Rightarrow> s\<lparr>list_ptr := Some e, tail_ptr := Some e\<rparr>)"

text \<open>
  \<open>e = p; p = p->next; psize--;\<close> and \<open>e = q; q = q->next; qsize--;\<close>, each followed
  by the addition of \<open>e\<close>.  \<open>e->next\<close> is read before \<open>tail->next\<close> is written.
\<close>

definition take_p :: "'r sort_state \<Rightarrow> 'r sort_state option" where
  "take_p s =
     (case p_ptr s of
        None \<Rightarrow> None
      | Some e \<Rightarrow> Some (add_merged e (s\<lparr>p_ptr := nxt (mem s) e, psize := psize s - 1\<rparr>)))"

definition take_q :: "'r sort_state \<Rightarrow> 'r sort_state option" where
  "take_q s =
     (case q_ptr s of
        None \<Rightarrow> None
      | Some e \<Rightarrow> Some (add_merged e (s\<lparr>q_ptr := nxt (mem s) e, qsize := qsize s - 1\<rparr>)))"

text \<open>The body of the inner \<open>while\<close>: the four branches of the source, in its order.\<close>

definition merge_step :: "'r list_cmp \<Rightarrow> 'r sort_state \<Rightarrow> 'r sort_state option" where
  "merge_step cmp s =
     (if psize s = 0 then take_q s
      else if qsize s = 0 \<or> q_ptr s = None then take_p s
      else
        (case p_ptr s of
           None \<Rightarrow> None
         | Some pa \<Rightarrow>
             (case q_ptr s of
                None \<Rightarrow> None
              | Some qa \<Rightarrow>
                  (case cmp (info (mem s) pa) (info (mem s) qa) (ctx s) (dat (mem s)) of
                     (c, d', res') \<Rightarrow>
                       if sint c \<le> 0
                       then take_p (s\<lparr>mem := (mem s)\<lparr>dat := d'\<rparr>, ctx := res'\<rparr>)
                       else take_q (s\<lparr>mem := (mem s)\<lparr>dat := d'\<rparr>, ctx := res'\<rparr>)))))"

text \<open>The inner \<open>while (psize > 0 || (qsize > 0 && q))\<close>.\<close>

partial_function (option) merge_loop ::
  "'r list_cmp \<Rightarrow> 'r sort_state \<Rightarrow> 'r sort_state option" where
  "merge_loop cmp s =
     (if psize s > 0 \<or> (qsize s > 0 \<and> q_ptr s \<noteq> None) then
        (case merge_step cmp s of
           None \<Rightarrow> None
         | Some s' \<Rightarrow> merge_loop cmp s')
      else Some s)"

declare merge_loop.simps [code]

text \<open>
  The loop \<open>while (p)\<close> of one pass: count the merge, step \<open>q\<close> along from \<open>p\<close>, set
  \<open>qsize\<close>, merge the two runs, continue at \<open>q\<close>.
\<close>

partial_function (option) pass_loop ::
  "'r list_cmp \<Rightarrow> 'r sort_state \<Rightarrow> 'r sort_state option" where
  "pass_loop cmp s =
     (case p_ptr s of
        None \<Rightarrow> Some s
      | Some pa \<Rightarrow>
          if nmerges s + 1 > s32_max then None
          else
            (case step_q (s\<lparr>nmerges := nmerges s + 1, q_ptr := p_ptr s, psize := 0,
                             i_cnt := 0\<rparr>) of
               None \<Rightarrow> None
             | Some s1 \<Rightarrow>
                 (case merge_loop cmp (s1\<lparr>qsize := insize s1\<rparr>) of
                    None \<Rightarrow> None
                  | Some s2 \<Rightarrow> pass_loop cmp (s2\<lparr>p_ptr := q_ptr s2\<rparr>))))"

declare pass_loop.simps [code]

text \<open>
  The outer \<open>while (1)\<close>: one pass, \<open>tail->next = NULL\<close>, return when at most one merge
  was done, otherwise double \<open>insize\<close>.  With an empty list the pass leaves \<open>tail\<close>
  at \<open>NULL\<close> and the assignment dereferences it.
\<close>

partial_function (option) sort_loop ::
  "'r list_cmp \<Rightarrow> 'r sort_state \<Rightarrow> 'r sort_state option" where
  "sort_loop cmp s =
     (case pass_loop cmp (s\<lparr>p_ptr := list_ptr s, list_ptr := None, tail_ptr := None,
                             nmerges := 0\<rparr>) of
        None \<Rightarrow> None
      | Some s1 \<Rightarrow>
          (case tail_ptr s1 of
             None \<Rightarrow> None
           | Some t \<Rightarrow>
               if nmerges s1 \<le> 1
               then Some (s1\<lparr>mem := (mem s1)\<lparr>nxt := (nxt (mem s1))(t := None)\<rparr>\<rparr>)
               else if insize s1 * 2 > s32_max then None
               else sort_loop cmp
                      (s1\<lparr>mem := (mem s1)\<lparr>nxt := (nxt (mem s1))(t := None)\<rparr>,
                          insize := insize s1 * 2\<rparr>)))"

declare sort_loop.simps [code]

text \<open>
  The entry state: \<open>insize = 1\<close>; the other locals are assigned before they are read.
\<close>

definition sort_entry :: "heap \<Rightarrow> ptr \<Rightarrow> 'r \<Rightarrow> 'r sort_state" where
  "sort_entry h list res =
     \<lparr>mem = h, ctx = res, list_ptr = list, p_ptr = None, q_ptr = None, tail_ptr = None,
      insize = 1, nmerges = 0, psize = 0, qsize = 0, i_cnt = 0\<rparr>"

definition core_list_mergesort ::
  "heap \<Rightarrow> ptr \<Rightarrow> 'r list_cmp \<Rightarrow> 'r \<Rightarrow> (ptr \<times> heap \<times> 'r) option" where
  "core_list_mergesort h list cmp res =
     (case sort_loop cmp (sort_entry h list res) of
        None \<Rightarrow> None
      | Some s \<Rightarrow> Some (list_ptr s, mem s, ctx s))"

section \<open>Building the list: \<open>core_list_init\<close>\<close>

text \<open>
  Modelled from the spec: \<open>struct list_data_s\<close> is declared in \<open>coremark.h\<close>, which is
  not among the sources.  The spec's Record has the two 16-bit fields \<open>idx\<close> and
  \<open>data16\<close>, and the sources use no other field, so its size is four bytes.
\<close>

definition sizeof_list_data :: ee_u32 where
  "sizeof_list_data = 4"

text \<open>
  The loop \<open>for (i = 0; i < size; i++)\<close> that inserts the items.  \<open>seed\<close> is converted
  to \<open>ee_u32\<close> (with its sign) for \<open>seed ^ i\<close>; \<open>dat\<close> and \<open>info.data16\<close> are the
  16-bit truncations of the values computed.  The local \<open>info\<close> keeps its \<open>idx\<close> from
  one iteration to the next.  The result of an insertion is not looked at.
\<close>

lemma unat_succ_less:
  fixes i sz :: ee_u32
  assumes "i < sz"
  shows "unat (i + 1) = unat i + 1"
proof -
  from assms have "unat i < unat sz" by (simp add: word_less_nat_alt)
  moreover have "unat sz < 2 ^ 32" using unsigned_less [of sz] by simp
  ultimately have "unat i + unat (1 :: ee_u32) < 2 ^ LENGTH(32)" by simp
  then show ?thesis using unat_add_lem [of i 1] by simp
qed

function insert_loop ::
  "ee_u32 \<Rightarrow> ee_u32 \<Rightarrow> ee_s16 \<Rightarrow> ptr \<Rightarrow> list_data \<Rightarrow> alloc \<Rightarrow> nat \<Rightarrow> nat \<Rightarrow> alloc option" where
  "insert_loop i sz seed list info_v s memblock_end datablock_end =
     (if i < sz then
        (let datpat = (ucast (scast seed XOR i) :: ee_u16) AND 0xf;
             dat = push_bit 3 datpat OR ucast (i AND 0x7);
             info_v' = info_v\<lparr>data16 := push_bit 8 dat OR dat\<rparr>
         in case core_list_insert_new list info_v' s memblock_end datablock_end of
              None \<Rightarrow> None
            | Some r \<Rightarrow>
                insert_loop (i + 1) sz seed list info_v' (snd r) memblock_end datablock_end)
      else Some s)"
  by pat_completeness auto
termination
proof (relation "measure (\<lambda>(i, sz, seed, list, info_v, s, me, de). unat sz - unat i)")
  show "wf (measure (\<lambda>(i, sz, seed, list, info_v, s, me, de). unat sz - unat i))"
    by simp
next
  fix i sz :: ee_u32
  assume "i < sz"
  then have "unat i < unat sz" by (simp add: word_less_nat_alt)
  moreover from \<open>i < sz\<close> have "unat (i + 1) = unat i + 1"
    by (rule unat_succ_less)
  ultimately have "unat sz - unat (i + 1) < unat sz - unat i" by simp
  then show "\<And>seed list info_v s memblock_end datablock_end x xa xb xc.
       ((i + 1, sz, seed, list, xb, snd xc, memblock_end, datablock_end),
        i, sz, seed, list, info_v, s, memblock_end, datablock_end)
       \<in> measure (\<lambda>(i, sz, seed, list, info_v, s, me, de). unat sz - unat i)"
    by simp
qed

declare insert_loop.simps [simp del]

text \<open>
  The walk that indexes the list: \<open>while (finder->next != NULL)\<close>.  In the first branch
  \<open>i\<close> is stored, truncated to 16 bits, and then incremented; in the second \<open>pat\<close> is
  computed from \<open>i\<close> before the increment and \<open>(i & 0x07)\<close> is read after it.
\<close>

partial_function (option) index_loop ::
  "ee_u32 \<Rightarrow> ee_s16 \<Rightarrow> heap \<Rightarrow> ptr \<Rightarrow> ee_u32 \<Rightarrow> heap option" where
  "index_loop sz seed h finder i =
     (case finder of
        None \<Rightarrow> None
      | Some f \<Rightarrow>
          if nxt h f \<noteq> None then
            (if i < sz div 5 then
               index_loop sz seed
                 (h\<lparr>dat := (dat h)(info h f := (dat h (info h f))\<lparr>idx := ucast i\<rparr>)\<rparr>)
                 (nxt h f) (i + 1)
             else
               (let pat = (ucast (i XOR scast seed) :: ee_u16);
                    i' = i + 1;
                    v = (ucast (0x3fff AND (push_bit 8 (i' AND 0x07) OR ucast pat)) :: ee_s16)
                in index_loop sz seed
                     (h\<lparr>dat := (dat h)(info h f := (dat h (info h f))\<lparr>idx := v\<rparr>)\<rparr>)
                     (nxt h f) i'))
          else Some h)"

declare index_loop.simps [code]

text \<open>
  The first part of \<open>core_list_init\<close>.  \<open>memblock\<close> is the address of the first cell
  of the block and \<open>h0\<close> the memory as the caller leaves it.  The block is cut into
  \<open>size\<close> cells and, from \<open>memblock_end\<close> on, \<open>size\<close> records; the head cell is
  written in place, then the tail item and \<open>size\<close> items are inserted behind the head.
  The unsigned subtraction in \<open>size\<close> wraps around.
\<close>

definition list_size :: "ee_u32 \<Rightarrow> ee_u32" where
  "list_size blksize = (let per_item = 16 + sizeof_list_data in blksize div per_item - 2)"

definition init_items :: "ee_u32 \<Rightarrow> nat \<Rightarrow> ee_s16 \<Rightarrow> heap \<Rightarrow> alloc option" where
  "init_items blksize memblock0 seed h0 =
     (let sz = list_size blksize;
          memblock_end = memblock0 + unat sz;
          datablock0 = memblock_end;
          datablock_end = datablock0 + unat sz;
          list = memblock0;
          h1 = h0\<lparr>nxt := (nxt h0)(list := None)\<rparr>;
          h2 = h1\<lparr>info := (info h1)(list := datablock0)\<rparr>;
          h3 = h2\<lparr>dat := (dat h2)(info h2 list := (dat h2 (info h2 list))\<lparr>idx := 0x0000\<rparr>)\<rparr>;
          h4 = h3\<lparr>dat := (dat h3)(info h3 list := (dat h3 (info h3 list))\<lparr>data16 := 0x8080\<rparr>)\<rparr>;
          s0 = \<lparr>hp = h4, memblock = memblock0 + 1, datablock = datablock0 + 1\<rparr>;
          info_v = \<lparr>data16 = 0xffff, idx = 0x7fff\<rparr>
      in case core_list_insert_new (Some list) info_v s0 memblock_end datablock_end of
           None \<Rightarrow> None
         | Some r0 \<Rightarrow>
             insert_loop 0 sz seed (Some list) info_v (snd r0) memblock_end datablock_end)"

text \<open>
  \<open>core_list_init\<close>: after the insertions the chain behind the head is indexed, with
  \<open>i\<close> starting at 1, and the list is sorted by \<open>cmp_idx\<close> with \<open>res = NULL\<close>.
\<close>

definition core_list_init :: "ee_u32 \<Rightarrow> nat \<Rightarrow> ee_s16 \<Rightarrow> heap \<Rightarrow> (ptr \<times> heap) option" where
  "core_list_init blksize memblock0 seed h0 =
     (case init_items blksize memblock0 seed h0 of
        None \<Rightarrow> None
      | Some s1 \<Rightarrow>
          (case index_loop (list_size blksize) seed (hp s1) (nxt (hp s1) memblock0) 1 of
             None \<Rightarrow> None
           | Some h5 \<Rightarrow>
               (case core_list_mergesort h5 (Some memblock0) cmp_idx (None :: unit option) of
                  None \<Rightarrow> None
                | Some r \<Rightarrow> Some (fst r, fst (snd r)))))"

section \<open>The list benchmark: \<open>core_bench_list\<close>\<close>

text \<open>
  The two scans of \<open>core_bench_list\<close>,
  \<open>while (finder) { retval = crc16(list->info->data16, retval); finder = finder->next; }\<close>.
  \<open>list\<close> is the head of the list and is dereferenced in the body only.
\<close>

partial_function (option) crc_scan :: "heap \<Rightarrow> ptr \<Rightarrow> ptr \<Rightarrow> ee_u16 \<Rightarrow> ee_u16 option" where
  "crc_scan h list finder retval =
     (case finder of
        None \<Rightarrow> Some retval
      | Some f \<Rightarrow>
          (case list of
             None \<Rightarrow> None
           | Some l \<Rightarrow> crc_scan h list (nxt h f) (crc16 (data16 (dat h (info h l))) retval)))"

declare crc_scan.simps [code]

text \<open>
  The locals of \<open>core_bench_list\<close> that its first loop changes, with the heap.
\<close>

record bench_state =
  b_heap :: heap
  b_list :: ptr
  b_info :: list_data
  b_retval :: ee_u16
  b_found :: ee_u16
  b_missed :: ee_u16
  b_i :: ee_s16

text \<open>
  The body of \<open>for (i = 0; i < find_num; i++)\<close>: look for the item, reverse the list,
  count; a found item's successor, if any, is moved behind the head.  Bits 8, 9 and 0 of
  \<open>data16\<close> are read by shifts and masks of the promoted value.  \<open>info.idx++\<close> is the
  16-bit increment.
\<close>

definition bit01 :: "ee_s16 \<Rightarrow> nat \<Rightarrow> ee_u16" where
  "bit01 x n = (if bit x n then 1 else 0)"

definition bench_find_step :: "bench_state \<Rightarrow> bench_state option" where
  "bench_find_step s =
     (let info1 = (b_info s)\<lparr>data16 := b_i s AND 0xff\<rparr>;
          info2 = (if 0 \<le> sint (idx info1) then info1\<lparr>idx := idx info1 + 1\<rparr> else info1)
      in case core_list_find (b_heap s) (b_list s) info1 of
           None \<Rightarrow> None
         | Some this_find \<Rightarrow>
             (case core_list_reverse (b_heap s) (b_list s) of
                None \<Rightarrow> None
              | Some (list1, h1) \<Rightarrow>
                  (case this_find of
                     None \<Rightarrow>
                       (case list1 of
                          None \<Rightarrow> None
                        | Some l \<Rightarrow>
                            (case nxt h1 l of
                               None \<Rightarrow> None
                             | Some n \<Rightarrow>
                                 Some (s\<lparr>b_heap := h1, b_list := list1, b_info := info2,
                                         b_missed := b_missed s + 1,
                                         b_retval := b_retval s
                                           + bit01 (data16 (dat h1 (info h1 n))) 8\<rparr>)))
                   | Some tf \<Rightarrow>
                       (let v = data16 (dat h1 (info h1 tf));
                            rv = (if bit v 0 then b_retval s + bit01 v 9 else b_retval s);
                            s1 = s\<lparr>b_heap := h1, b_list := list1, b_info := info2,
                                   b_found := b_found s + 1, b_retval := rv\<rparr>
                        in case nxt h1 tf of
                             None \<Rightarrow> Some s1
                           | Some fd \<Rightarrow>
                               (case list1 of
                                  None \<Rightarrow> None
                                | Some l \<Rightarrow>
                                    let nx1 = (nxt h1)(tf := nxt h1 fd);
                                        nx2 = nx1(fd := nx1 l);
                                        nx3 = nx2(l := Some fd)
                                    in Some (s1\<lparr>b_heap := h1\<lparr>nxt := nx3\<rparr>\<rparr>))))))"

partial_function (option) bench_find_loop :: "ee_s16 \<Rightarrow> bench_state \<Rightarrow> bench_state option" where
  "bench_find_loop find_num s =
     (if sint (b_i s) < sint find_num then
        (case bench_find_step s of
           None \<Rightarrow> None
         | Some s' \<Rightarrow> bench_find_loop find_num (s'\<lparr>b_i := b_i s' + 1\<rparr>))
      else Some s)"

declare bench_find_loop.simps [code]

text \<open>
  \<open>core_bench_list\<close>.  \<open>list\<close> and \<open>seed3\<close> are the fields \<open>res->list\<close> and
  \<open>res->seed3\<close>; \<open>data0\<close> is what the local \<open>info.data16\<close> holds before its first
  assignment.  The comparator \<open>cmp_complex\<close> runs the state-machine and the matrix
  kernels through \<open>calc_func\<close>; the function is given here for any comparator \<open>cmplx\<close>
  in its place, with the context \<open>res\<close> that it changes.  The sort by \<open>cmp_idx\<close> gets
  the \<open>NULL\<close> context.
\<close>

definition core_bench_list ::
  "'r list_cmp \<Rightarrow> heap \<Rightarrow> ptr \<Rightarrow> ee_s16 \<Rightarrow> ee_s16 \<Rightarrow> 'r \<Rightarrow> ee_s16
     \<Rightarrow> (ee_u16 \<times> heap \<times> 'r) option" where
  "core_bench_list cmplx h list seed3 data0 res finder_idx =
     (case bench_find_loop seed3
             \<lparr>b_heap = h, b_list = list, b_info = \<lparr>data16 = data0, idx = finder_idx\<rparr>,
              b_retval = 0, b_found = 0, b_missed = 0, b_i = 0\<rparr> of
        None \<Rightarrow> None
      | Some s \<Rightarrow>
          (let retval1 = b_retval s + (b_found s * 4 - b_missed s)
           in case (if 0 < sint finder_idx
                    then core_list_mergesort (b_heap s) (b_list s) cmplx res
                    else Some (b_list s, b_heap s, res)) of
                None \<Rightarrow> None
              | Some (list1, h1, res1) \<Rightarrow>
                  (case list1 of
                     None \<Rightarrow> None
                   | Some l1 \<Rightarrow>
                       (case core_list_remove h1 (nxt h1 l1) of
                          None \<Rightarrow> None
                        | Some (remover, h2) \<Rightarrow>
                            (case core_list_find h2 list1 (b_info s) of
                               None \<Rightarrow> None
                             | Some found_p \<Rightarrow>
                                 (let finder = (if found_p = None then nxt h2 l1 else found_p)
                                  in case crc_scan h2 list1 finder retval1 of
                                       None \<Rightarrow> None
                                     | Some retval2 \<Rightarrow>
                                         (case core_list_undo_remove h2 remover (nxt h2 l1) of
                                            None \<Rightarrow> None
                                          | Some (remover', h3) \<Rightarrow>
                                              (case core_list_mergesort h3 list1 cmp_idx
                                                      (None :: unit option) of
                                                 None \<Rightarrow> None
                                               | Some (list4, h4, r4) \<Rightarrow>
                                                   (case list4 of
                                                      None \<Rightarrow> None
                                                    | Some l4 \<Rightarrow>
                                                        (case crc_scan h4 list4 (nxt h4 l4) retval2 of
                                                           None \<Rightarrow> None
                                                         | Some retval3 \<Rightarrow>
                                                             Some (retval3, h4, res1)))))))))))"

section \<open>The matrix kernel\<close>

text \<open>
  \<open>coremark.h\<close> and \<open>core_portme.h\<close> are not among the sources.  The element types
  \<open>MATDAT\<close> and \<open>MATRES\<close> are taken to be \<open>ee_s16\<close> and \<open>ee_s32\<close>.  The three macros
  of the kernel are defined twice, under \<open>#ifndef HAS_FLOAT\<close> and under its \<open>#else\<close>, so
  the two that are used are a parameter of the model.  With \<open>HAS_FLOAT\<close> defined
  \<open>matrix_clip(x, y)\<close> and \<open>matrix_big(x)\<close> are \<open>(x)\<close>.  Without it \<open>matrix_big(x)\<close>
  is \<open>(0xf000 | (x))\<close> and \<open>matrix_clip(x, y)\<close> is
  \<open>((y) ? (()x)&0x0ff : (x)&0x0ffff)\<close>, which is not an expression of C;
  \<open>no_float_macros\<close> reads it as \<open>((y) ? (x)&0x0ff : (x)&0x0ffff)\<close>.  The only use of
  \<open>bit_extract\<close> is in a comment.
\<close>

record macros =
  matrix_clip :: "ee_s16 \<Rightarrow> bool \<Rightarrow> ee_s16"
  matrix_big :: "ee_s16 \<Rightarrow> ee_s16"

definition has_float_macros :: macros where
  "has_float_macros = \<lparr>matrix_clip = (\<lambda>x y. x), matrix_big = (\<lambda>x. x)\<rparr>"

definition no_float_macros :: macros where
  "no_float_macros = \<lparr>matrix_clip = (\<lambda>x y. if y then x AND 0xff else x AND 0xffff),
                       matrix_big = (\<lambda>x. 0xf000 OR x)\<rparr>"

text \<open>
  \<open>mat_params\<close>: the dimension and the three matrices, each a list of \<open>N * N\<close>
  elements in row order.
\<close>

record mat_params =
  mat_N :: nat
  mat_A :: "ee_s16 list"
  mat_B :: "ee_s16 list"
  mat_C :: "ee_s32 list"

text \<open>The nested loops \<open>for (i = 0; i < N; i++) for (j = 0; j < N; j++)\<close>.\<close>

definition for2 :: "nat \<Rightarrow> (nat \<Rightarrow> nat \<Rightarrow> 'a \<Rightarrow> 'a) \<Rightarrow> 'a \<Rightarrow> 'a" where
  "for2 N body = fold (\<lambda>i. fold (\<lambda>j. body i j) [0..<N]) [0..<N]"

definition matrix_add_const :: "nat \<Rightarrow> ee_s16 list \<Rightarrow> ee_s16 \<Rightarrow> ee_s16 list" where
  "matrix_add_const N A val = for2 N (\<lambda>i j A. A[i * N + j := A ! (i * N + j) + val]) A"

definition matrix_mul_const :: "nat \<Rightarrow> ee_s32 list \<Rightarrow> ee_s16 list \<Rightarrow> ee_s16 \<Rightarrow> ee_s32 list" where
  "matrix_mul_const N C A val =
     for2 N (\<lambda>i j C. C[i * N + j := scast (A ! (i * N + j)) * scast val]) C"

definition matrix_mul_vect :: "nat \<Rightarrow> ee_s32 list \<Rightarrow> ee_s16 list \<Rightarrow> ee_s16 list \<Rightarrow> ee_s32 list" where
  "matrix_mul_vect N C A B =
     fold (\<lambda>i C. fold (\<lambda>j C. C[i := C ! i + scast (A ! (i * N + j)) * scast (B ! j)])
                    [0..<N] (C[i := 0])) [0..<N] C"

definition matrix_mul_matrix :: "nat \<Rightarrow> ee_s32 list \<Rightarrow> ee_s16 list \<Rightarrow> ee_s16 list \<Rightarrow> ee_s32 list" where
  "matrix_mul_matrix N C A B =
     for2 N (\<lambda>i j C. fold (\<lambda>k C. C[i * N + j := C ! (i * N + j)
                                       + scast (A ! (i * N + k)) * scast (B ! (k * N + j))])
                        [0..<N] (C[i * N + j := 0])) C"

text \<open>
  In \<open>matrix_mul_matrix_bitextract\<close> the product \<open>tmp\<close> is computed and not used: the
  statement that adds to \<open>C[i * N + j]\<close> is commented out.
\<close>

definition matrix_mul_matrix_bitextract ::
  "nat \<Rightarrow> ee_s32 list \<Rightarrow> ee_s16 list \<Rightarrow> ee_s16 list \<Rightarrow> ee_s32 list" where
  "matrix_mul_matrix_bitextract N C A B =
     for2 N (\<lambda>i j C. fold (\<lambda>k C. let tmp = (scast (A ! (i * N + k)) * scast (B ! (k * N + j)) :: ee_s32)
                                  in C)
                        [0..<N] (C[i * N + j := 0])) C"

text \<open>
  \<open>matrix_sum\<close>: \<open>tmp\<close>, \<open>prev\<close> and \<open>ret\<close> through the two loops; the comparisons
  are signed.
\<close>

definition matrix_sum :: "nat \<Rightarrow> ee_s32 list \<Rightarrow> ee_s16 \<Rightarrow> ee_s16" where
  "matrix_sum N C clipval =
     (case for2 N (\<lambda>i j (tmp, prev, ret).
                let cur = C ! (i * N + j);
                    tmp1 = tmp + cur
                in if sint tmp1 > sint clipval then (0, cur, ret + 10)
                   else (tmp1, cur, ret + (if sint cur > sint prev then 1 else 0)))
             (0 :: ee_s32, 0 :: ee_s32, 0 :: ee_s16) of
        (tmp, prev, ret) \<Rightarrow> ret)"

definition matrix_test :: "macros \<Rightarrow> mat_params \<Rightarrow> ee_s16 \<Rightarrow> ee_s16 \<times> mat_params" where
  "matrix_test m p val =
     (let N = mat_N p;
          clipval = matrix_big m val;
          A1 = matrix_add_const N (mat_A p) val;
          C1 = matrix_mul_const N (mat_C p) A1 val;
          crc1 = crc16 (matrix_sum N C1 clipval) 0;
          C2 = matrix_mul_vect N C1 A1 (mat_B p);
          crc2 = crc16 (matrix_sum N C2 clipval) crc1;
          C3 = matrix_mul_matrix N C2 A1 (mat_B p);
          crc3 = crc16 (matrix_sum N C3 clipval) crc2;
          C4 = matrix_mul_matrix_bitextract N C3 A1 (mat_B p);
          crc4 = crc16 (matrix_sum N C4 clipval) crc3;
          A2 = matrix_add_const N A1 (- val)
      in (crc4, p\<lparr>mat_A := A2, mat_C := C4\<rparr>))"

definition core_bench_matrix :: "macros \<Rightarrow> mat_params \<Rightarrow> ee_s16 \<Rightarrow> ee_u16 \<Rightarrow> ee_u16 \<times> mat_params" where
  "core_bench_matrix m p seed crc =
     (case matrix_test m p seed of (r, p') \<Rightarrow> (crc16 r crc, p'))"

text \<open>
  \<open>core_init_matrix\<close>.  The first loop finds the dimension:
  \<open>while (j < blksize) { i++; j = i * i * 2 * 4; }\<close> and \<open>N = i - 1\<close>, in \<open>ee_u32\<close>.
  \<open>c_rem\<close> is the remainder of C, with the sign of the dividend.  \<open>C\<close> is not
  initialised by the source and is written before it is read.
\<close>

partial_function (option) matrix_dim :: "ee_u32 \<Rightarrow> ee_u32 \<Rightarrow> ee_u32 \<Rightarrow> ee_u32 option" where
  "matrix_dim blksize i j =
     (if j < blksize then matrix_dim blksize (i + 1) ((i + 1) * (i + 1) * 2 * 4)
      else Some (i - 1))"

declare matrix_dim.simps [code]

definition c_rem :: "int \<Rightarrow> int \<Rightarrow> int" where
  "c_rem a b = sgn a * (\<bar>a\<bar> mod \<bar>b\<bar>)"

definition core_init_matrix :: "macros \<Rightarrow> ee_u32 \<Rightarrow> ee_s32 \<Rightarrow> mat_params option" where
  "core_init_matrix m blksize seed0 =
     (case matrix_dim blksize 0 0 of
        None \<Rightarrow> None
      | Some n \<Rightarrow>
      let N = unat n;
          seed1 = (if seed0 = 0 then 1 else seed0);
          z16 = replicate (N * N) (0 :: ee_s16)
      in case for2 N (\<lambda>i j (seed, order, A, B).
                  let seed' = (word_of_int (c_rem (sint (order * seed)) 65536) :: ee_s32);
                      val1 = (ucast (seed' + order) :: ee_s16);
                      val2 = matrix_clip m val1 False;
                      B' = B[i * N + j := val2];
                      val3 = (ucast ((scast val2 :: ee_s32) + order) :: ee_s16);
                      val4 = matrix_clip m val3 True;
                      A' = A[i * N + j := val4]
                  in (seed', order + 1, A', B'))
               (seed1, 1 :: ee_s32, z16, z16) of
           (seed, order, A, B) \<Rightarrow>
             Some \<lparr>mat_N = N, mat_A = A, mat_B = B, mat_C = replicate (N * N) 0\<rparr>)"

section \<open>The state machine kernel\<close>

text \<open>
  \<open>enum CORE_STATE\<close> is declared in \<open>coremark.h\<close>; the sources name eight states and
  use \<open>NUM_CORE_STATES\<close> as the length of the two arrays of counters.  \<open>state_num\<close> is
  the position of a state in those arrays.
\<close>

datatype CORE_STATE = CORE_START | CORE_INVALID | CORE_S1 | CORE_S2 | CORE_INT | CORE_FLOAT
  | CORE_EXPONENT | CORE_SCIENTIFIC

fun state_num :: "CORE_STATE \<Rightarrow> nat" where
  "state_num CORE_START = 0"
| "state_num CORE_INVALID = 1"
| "state_num CORE_S1 = 2"
| "state_num CORE_S2 = 3"
| "state_num CORE_INT = 4"
| "state_num CORE_FLOAT = 5"
| "state_num CORE_EXPONENT = 6"
| "state_num CORE_SCIENTIFIC = 7"

definition NUM_CORE_STATES :: nat where "NUM_CORE_STATES = 8"

definition ee_isdigit :: "ee_u8 \<Rightarrow> bool" where
  "ee_isdigit c = (0x30 \<le> c \<and> c \<le> 0x39)"

text \<open>\<open>counts[state]++\<close>, and the code of a character.\<close>

definition inc :: "ee_u32 list \<Rightarrow> CORE_STATE \<Rightarrow> ee_u32 list" where
  "inc cnt st = cnt[state_num st := cnt ! state_num st + 1]"

definition ch :: "char \<Rightarrow> ee_u8" where
  "ch c = of_nat (of_char c)"

text \<open>The \<open>switch (state)\<close> of \<open>core_state_transition\<close> for one symbol.\<close>

definition transition_step :: "CORE_STATE \<Rightarrow> ee_u8 \<Rightarrow> ee_u32 list \<Rightarrow> CORE_STATE \<times> ee_u32 list" where
  "transition_step state c tc =
     (case state of
        CORE_START \<Rightarrow>
          (if ee_isdigit c then (CORE_INT, inc tc CORE_START)
           else if c = ch CHR ''+'' \<or> c = ch CHR ''-'' then (CORE_S1, inc tc CORE_START)
           else if c = ch CHR ''.'' then (CORE_FLOAT, inc tc CORE_START)
           else (CORE_INVALID, inc (inc tc CORE_INVALID) CORE_START))
      | CORE_S1 \<Rightarrow>
          (if ee_isdigit c then (CORE_INT, inc tc CORE_S1)
           else if c = ch CHR ''.'' then (CORE_FLOAT, inc tc CORE_S1)
           else (CORE_INVALID, inc tc CORE_S1))
      | CORE_INT \<Rightarrow>
          (if c = ch CHR ''.'' then (CORE_FLOAT, inc tc CORE_INT)
           else if \<not> ee_isdigit c then (CORE_INVALID, inc tc CORE_INT)
           else (state, tc))
      | CORE_FLOAT \<Rightarrow>
          (if c = ch CHR ''E'' \<or> c = ch CHR ''e'' then (CORE_S2, inc tc CORE_FLOAT)
           else if \<not> ee_isdigit c then (CORE_INVALID, inc tc CORE_FLOAT)
           else (state, tc))
      | CORE_S2 \<Rightarrow>
          (if c = ch CHR ''+'' \<or> c = ch CHR ''-'' then (CORE_EXPONENT, inc tc CORE_S2)
           else (CORE_INVALID, inc tc CORE_S2))
      | CORE_EXPONENT \<Rightarrow>
          (if ee_isdigit c then (CORE_SCIENTIFIC, inc tc CORE_EXPONENT)
           else (CORE_INVALID, inc tc CORE_EXPONENT))
      | CORE_SCIENTIFIC \<Rightarrow>
          (if \<not> ee_isdigit c then (CORE_INVALID, inc tc CORE_INVALID)
           else (state, tc))
      | CORE_INVALID \<Rightarrow> (state, tc))"

text \<open>
  The loop \<open>for (; *str && state != CORE_INVALID; str++)\<close> with its \<open>break\<close> behind a
  comma.  The buffer is a list of bytes and a pointer into it an index; a read behind
  its end gives \<open>None\<close>.
\<close>

partial_function (option) transition_loop ::
  "ee_u8 list \<Rightarrow> nat \<Rightarrow> CORE_STATE \<Rightarrow> ee_u32 list \<Rightarrow> (CORE_STATE \<times> nat \<times> ee_u32 list) option" where
  "transition_loop buf str state tc =
     (if str \<ge> length buf then None
      else if buf ! str \<noteq> 0 \<and> state \<noteq> CORE_INVALID then
        (let c = buf ! str in
         if c = ch CHR '','' then Some (state, str + 1, tc)
         else (case transition_step state c tc of
                 (state', tc') \<Rightarrow> transition_loop buf (str + 1) state' tc'))
      else Some (state, str, tc))"

declare transition_loop.simps [code]

definition core_state_transition ::
  "ee_u8 list \<Rightarrow> nat \<Rightarrow> ee_u32 list \<Rightarrow> (CORE_STATE \<times> nat \<times> ee_u32 list) option" where
  "core_state_transition buf instr tc = transition_loop buf instr CORE_START tc"

text \<open>
  The two loops of \<open>core_bench_state\<close>: \<open>while (*p != 0)\<close>, which runs the machine
  over the input, and \<open>while (p < (memblock + blksize))\<close>, which corrupts it.
\<close>

partial_function (option) run_machine ::
  "ee_u8 list \<Rightarrow> nat \<Rightarrow> ee_u32 list \<Rightarrow> ee_u32 list \<Rightarrow> (ee_u32 list \<times> ee_u32 list) option" where
  "run_machine buf p final track =
     (if p \<ge> length buf then None
      else if buf ! p \<noteq> 0 then
        (case core_state_transition buf p track of
           None \<Rightarrow> None
         | Some (fstate, p', track') \<Rightarrow> run_machine buf p' (inc final fstate) track')
      else Some (final, track))"

declare run_machine.simps [code]

partial_function (option) corrupt ::
  "nat \<Rightarrow> nat \<Rightarrow> ee_u8 \<Rightarrow> ee_u8 list \<Rightarrow> nat \<Rightarrow> ee_u8 list option" where
  "corrupt blksize step seed buf p =
     (if p < blksize then
        (if p \<ge> length buf then None
         else corrupt blksize step seed
                (if buf ! p \<noteq> ch CHR '','' then buf[p := buf ! p XOR seed] else buf) (p + step))
      else Some buf)"

declare corrupt.simps [code]

text \<open>
  \<open>core_bench_state\<close>.  With a \<open>step\<close> that is not positive the corrupting loop does
  not advance.
\<close>

definition core_bench_state ::
  "ee_u32 \<Rightarrow> ee_u8 list \<Rightarrow> ee_s16 \<Rightarrow> ee_s16 \<Rightarrow> ee_s16 \<Rightarrow> ee_u16 \<Rightarrow> (ee_u16 \<times> ee_u8 list) option" where
  "core_bench_state blksize membuf seed1 seed2 step crc =
     (let z = replicate NUM_CORE_STATES (0 :: ee_u32) in
      if sint step \<le> 0 then None else
      case run_machine membuf 0 z z of
        None \<Rightarrow> None
      | Some (final1, track1) \<Rightarrow>
          (case corrupt (unat blksize) (nat (sint step)) (ucast seed1) membuf 0 of
             None \<Rightarrow> None
           | Some buf1 \<Rightarrow>
               (case run_machine buf1 0 final1 track1 of
                  None \<Rightarrow> None
                | Some (final2, track2) \<Rightarrow>
                    (case corrupt (unat blksize) (nat (sint step)) (ucast seed2) buf1 0 of
                       None \<Rightarrow> None
                     | Some buf2 \<Rightarrow>
                         Some (fold (\<lambda>i crc. crcu32 (track2 ! i) (crcu32 (final2 ! i) crc))
                                 [0..<NUM_CORE_STATES] crc, buf2)))))"

text \<open>The initialisation patterns and \<open>core_init_state\<close>.\<close>

definition pat :: "string \<Rightarrow> ee_u8 list" where
  "pat s = map ch s"

definition intpat :: "ee_u8 list list" where
  "intpat = [pat ''5012'', pat ''1234'', pat ''-874'', pat ''+122'']"
definition floatpat :: "ee_u8 list list" where
  "floatpat = [pat ''35.54400'', pat ''.1234500'', pat ''-110.700'', pat ''+0.64400'']"
definition scipat :: "ee_u8 list list" where
  "scipat = [pat ''5.500e+3'', pat ''-.123e-2'', pat ''-87e+832'', pat ''+0.6e-12'']"
definition errpat :: "ee_u8 list list" where
  "errpat = [pat ''T0.3e-1F'', pat ''-T.T++Tq'', pat ''1T3.4e4z'', pat ''34.0e-T^'']"

partial_function (option) init_state_loop ::
  "ee_u32 \<Rightarrow> ee_s16 \<Rightarrow> ee_u8 list \<Rightarrow> ee_u32 \<Rightarrow> ee_u32 \<Rightarrow> ee_u8 list \<Rightarrow> (ee_u8 list \<times> ee_u32) option" where
  "init_state_loop sz seed p tot nx buf =
     (if tot + nx + 1 < sz then
        (let (p1, tot1) =
               (if nx > 0
                then (list_update (fold (\<lambda>i p. p[unat tot + i := buf ! i]) [0..<unat nx] p)
                        (unat tot + unat nx) (ch CHR '',''),
                      tot + nx + 1)
                else (p, tot));
             seed1 = seed + 1;
             k = unat (drop_bit 3 seed1 AND 0x3);
             sel = unat (seed1 AND 0x7);
             (buf1, nx1) =
               (if sel \<le> 2 then (intpat ! k, 4)
                else if sel \<le> 4 then (floatpat ! k, 8)
                else if sel \<le> 6 then (scipat ! k, 8)
                else (errpat ! k, 8))
         in init_state_loop sz seed1 p1 tot1 nx1 buf1)
      else Some (p, tot))"

declare init_state_loop.simps [code]

definition core_init_state :: "ee_u32 \<Rightarrow> ee_s16 \<Rightarrow> ee_u8 list \<Rightarrow> ee_u8 list option" where
  "core_init_state sz seed p =
     (case init_state_loop (sz - 1) seed p 0 0 [] of
        None \<Rightarrow> None
      | Some (p1, tot) \<Rightarrow>
          Some (fold (\<lambda>t p. p[t := 0]) [unat tot ..< unat sz] p1))"

section \<open>The comparator that runs the kernels\<close>

text \<open>
  The fields of \<open>core_results\<close> that the kernels and \<open>iterate\<close> use; \<open>r_state\<close> is the
  block \<open>memblock[3]\<close>.  A comparator cannot fail in the model of the sort, so a read
  behind the end of the state block is recorded in \<open>r_fault\<close>.
\<close>

record core_results =
  r_seed1 :: ee_s16
  r_seed2 :: ee_s16
  r_seed3 :: ee_s16
  r_size :: ee_u32
  r_state :: "ee_u8 list"
  r_mat :: mat_params
  r_crc :: ee_u16
  r_crclist :: ee_u16
  r_crcmatrix :: ee_u16
  r_crcstate :: ee_u16
  r_fault :: bool

text \<open>
  \<open>calc_func\<close> gets the \<open>data16\<close> of the record and returns the value, the
  \<open>data16\<close> to store and the context.
\<close>

definition calc_func :: "macros \<Rightarrow> ee_s16 \<Rightarrow> core_results \<Rightarrow> ee_s16 \<times> ee_s16 \<times> core_results" where
  "calc_func m data res =
     (if bit data 7 then (data AND 0x007f, data, res)
      else
        (let flag = data AND 0x7;
             dtype0 = drop_bit 3 data AND 0xf;
             dtype = dtype0 OR push_bit 4 dtype0;
             (retval, res1) =
               (if flag = 0 then
                  (let dtype' = (if sint dtype < 0x22 then 0x22 else dtype) in
                   case core_bench_state (r_size res) (r_state res) (r_seed1 res) (r_seed2 res)
                          dtype' (r_crc res) of
                     None \<Rightarrow> (0, res\<lparr>r_fault := True\<rparr>)
                   | Some (rv, buf) \<Rightarrow>
                       (rv, res\<lparr>r_state := buf,
                                 r_crcstate := (if r_crcstate res = 0 then rv else r_crcstate res)\<rparr>))
                else if flag = 1 then
                  (case core_bench_matrix m (r_mat res) dtype (r_crc res) of
                     (rv, p) \<Rightarrow>
                       (rv, res\<lparr>r_mat := p,
                                 r_crcmatrix := (if r_crcmatrix res = 0 then rv else r_crcmatrix res)\<rparr>))
                else (data, res));
             res2 = res1\<lparr>r_crc := crcu16 retval (r_crc res1)\<rparr>;
             retval' = retval AND 0x007f
         in (retval', (data AND 0xff00) OR 0x0080 OR retval', res2)))"

definition cmp_complex :: "macros \<Rightarrow> core_results list_cmp" where
  "cmp_complex m a b res d =
     (case calc_func m (data16 (d a)) res of
        (val1, da, res1) \<Rightarrow>
          let d1 = d(a := (d a)\<lparr>data16 := da\<rparr>) in
          (case calc_func m (data16 (d1 b)) res1 of
             (val2, db, res2) \<Rightarrow>
               let d2 = d1(b := (d1 b)\<lparr>data16 := db\<rparr>) in
               (scast val1 - scast val2, d2, res2)))"

section \<open>The driver\<close>

text \<open>
  \<open>iterate\<close>: both calls of \<open>core_bench_list\<close> get \<open>res->list\<close>, and \<open>crclist\<close> is set
  at the end of the first iteration.
\<close>

fun iterate_loop ::
  "macros \<Rightarrow> ptr \<Rightarrow> nat \<Rightarrow> nat \<Rightarrow> heap \<Rightarrow> core_results \<Rightarrow> (heap \<times> core_results) option" where
  "iterate_loop m list 0 i h res = Some (h, res)"
| "iterate_loop m list (Suc n) i h res =
     (case core_bench_list (cmp_complex m) h list (r_seed3 res) 0 res 1 of
        None \<Rightarrow> None
      | Some (crc1, h1, res1) \<Rightarrow>
          (let res2 = res1\<lparr>r_crc := crcu16 crc1 (r_crc res1)\<rparr> in
           case core_bench_list (cmp_complex m) h1 list (r_seed3 res2) 0 res2 (- 1) of
             None \<Rightarrow> None
           | Some (crc2, h2, res3) \<Rightarrow>
               (let res4 = res3\<lparr>r_crc := crcu16 crc2 (r_crc res3)\<rparr>;
                    res5 = (if i = 0 then res4\<lparr>r_crclist := r_crc res4\<rparr> else res4)
                in iterate_loop m list n (i + 1) h2 res5)))"

definition iterate :: "macros \<Rightarrow> ptr \<Rightarrow> nat \<Rightarrow> heap \<Rightarrow> core_results \<Rightarrow> (heap \<times> core_results) option" where
  "iterate m list iterations h res =
     iterate_loop m list iterations 0 h
       (res\<lparr>r_crc := 0, r_crclist := 0, r_crcmatrix := 0, r_crcstate := 0\<rparr>)"

text \<open>
  The part of \<open>main\<close> between the seeds and the report, for one context that runs all
  three algorithms: the three initialisations with the size of a block, and
  \<open>iterate\<close>.  Each block is a memory of its own here.
\<close>

definition main_run ::
  "macros \<Rightarrow> ee_s16 \<Rightarrow> ee_s16 \<Rightarrow> ee_s16 \<Rightarrow> ee_u32 \<Rightarrow> nat \<Rightarrow> core_results option" where
  "main_run m seed1 seed2 seed3 sz iterations =
     (case core_list_init sz 0 seed1 blank_heap of
        None \<Rightarrow> None
      | Some (l, h) \<Rightarrow>
          (case core_init_matrix m sz (scast seed1 OR push_bit 16 (scast seed2)) of
             None \<Rightarrow> None
           | Some p \<Rightarrow>
               (case core_init_state sz seed1 (replicate (unat sz) 0) of
                  None \<Rightarrow> None
                | Some buf \<Rightarrow>
                    (case iterate m l iterations h
                            \<lparr>r_seed1 = seed1, r_seed2 = seed2, r_seed3 = seed3, r_size = sz,
                             r_state = buf, r_mat = p, r_crc = 0, r_crclist = 0,
                             r_crcmatrix = 0, r_crcstate = 0, r_fault = False\<rparr> of
                       None \<Rightarrow> None
                     | Some (h', res') \<Rightarrow> Some res'))))"

section \<open>Basic facts about chains\<close>

lemma chain_None [simp]: "chain nx None as q = (as = [] \<and> q = None)"
  by (cases as) auto

lemma chain_append:
  "chain nx p (as @ bs) q = (\<exists>r. chain nx p as r \<and> chain nx r bs q)"
  by (induction as arbitrary: p) auto

lemma chain_update_other:
  "u \<notin> set as \<Longrightarrow> chain (nx(u := v)) p as q = chain nx p as q"
  by (induction as arbitrary: p) auto

lemma chain_unique:
  "chain nx p as None \<Longrightarrow> chain nx p bs None \<Longrightarrow> as = bs"
proof (induction as arbitrary: p bs)
  case Nil
  then show ?case by simp
next
  case (Cons a as)
  then show ?case by (cases bs) auto
qed

lemma chain_no_self_loop:
  "chain nx p as None \<Longrightarrow> distinct as \<Longrightarrow> n \<in> set as \<Longrightarrow> nx n \<noteq> Some n"
proof (induction as arbitrary: p)
  case Nil
  then show ?case by simp
next
  case (Cons a as)
  show ?case
  proof (cases "n = a")
    case True
    show ?thesis
    proof
      assume "nx n = Some n"
      with Cons.prems(1) True have "chain nx (Some a) as None" by simp
      then have "a \<in> set as" by (cases as) auto
      with Cons.prems(2) show False by simp
    qed
  next
    case False
    with Cons show ?thesis by auto
  qed
qed

section \<open>Allocation failure is atomic\<close>

text \<open>
  C10.  Whenever \<open>core_list_insert_new\<close> fails for lack of capacity (the cell cursor or
  the record cursor would reach the end of its region), it returns \<open>NULL\<close> and the
  state is exactly the one it was given: links, records and both cursors.
\<close>

theorem insert_new_failure_atomic:
  assumes "memblock s + 1 \<ge> memblock_end \<or> datablock s + 1 \<ge> datablock_end"
  shows "core_list_insert_new insert_point info_in s memblock_end datablock_end = Some (None, s)"
  using assms by (auto simp: core_list_insert_new_def)

theorem insert_new_failure_atomic_witness:
  "core_list_insert_new (Some 0) \<lparr>data16 = 0xffff, idx = 0x7fff\<rparr>
     \<lparr>hp = \<lparr>nxt = (\<lambda>_. None), info = (\<lambda>_. 0),
             dat = (\<lambda>_. \<lparr>data16 = 0x8080, idx = 0\<rparr>)\<rparr>, memblock = 1, datablock = 1\<rparr> 2 2
   = Some (None, \<lparr>hp = \<lparr>nxt = (\<lambda>_. None), info = (\<lambda>_. 0),
             dat = (\<lambda>_. \<lparr>data16 = 0x8080, idx = 0\<rparr>)\<rparr>, memblock = 1, datablock = 1\<rparr>)"
  by (rule insert_new_failure_atomic) simp

section \<open>Remove followed by undo\<close>

text \<open>
  C2.  For a list and a cell \<open>n\<close> of it that has a successor, \<open>core_list_remove\<close> on \<open>n\<close>
  followed by \<open>core_list_undo_remove\<close> on the removed cell and \<open>n\<close> gives back the
  heap it started from: every link and every record ownership is as before, so the
  list is the same chain of cells with the same sequence of records.
\<close>

theorem remove_undo_exact:
  assumes "is_list h head as" and "n \<in> set as" and "nxt h n = Some r"
  shows "\<exists>h1 h2. core_list_remove h (Some n) = Some (Some r, h1)
           \<and> core_list_undo_remove h1 (Some r) (Some n) = Some (Some r, h2)
           \<and> h2 = h \<and> is_list h2 head as \<and> records h2 as = records h as"
proof -
  from assms have ne: "r \<noteq> n"
    using chain_no_self_loop [of "nxt h" head as n] by (auto simp: is_list_def)
  let ?h1 = "h\<lparr>nxt := ((nxt h)(n := nxt h r))(r := None),
               info := ((info h)(n := info h r))(r := info h n)\<rparr>"
  have rem: "core_list_remove h (Some n) = Some (Some r, ?h1)"
    using assms(3) by (simp add: core_list_remove_def Let_def)
  have nx: "(((nxt h)(n := nxt h r))(r := None))(r := nxt h r, n := Some r) = nxt h"
    using assms(3) ne by (auto simp: fun_eq_iff)
  have inf: "(((info h)(n := info h r))(r := info h n))(r := info h r, n := info h n) = info h"
    using ne by (auto simp: fun_eq_iff)
  have "core_list_undo_remove ?h1 (Some r) (Some n) = Some (Some r, h)"
    using ne nx inf by (simp add: core_list_undo_remove_def Let_def)
  with rem assms(1) show ?thesis by simp
qed

text \<open>
  A three-cell list \<open>0 \<rightarrow> 1 \<rightarrow> 2\<close>; the cell removed and restored is the successor of
  cell 1.
\<close>

definition heap3 :: heap where
  "heap3 = \<lparr>nxt = (\<lambda>n. if n < 2 then Some (n + 1) else None), info = (\<lambda>n. n),
            dat = (\<lambda>n. \<lparr>data16 = of_nat n, idx = of_nat n\<rparr>)\<rparr>"

theorem remove_undo_exact_witness:
  "\<exists>h1 h2. core_list_remove heap3 (Some 1) = Some (Some 2, h1)
           \<and> core_list_undo_remove h1 (Some 2) (Some 1) = Some (Some 2, h2)
           \<and> h2 = heap3 \<and> is_list h2 (Some 0) [0, 1, 2]
           \<and> records h2 [0, 1, 2] = records heap3 [0, 1, 2]"
  by (rule remove_undo_exact) (simp_all add: is_list_def heap3_def)

section \<open>Find\<close>

text \<open>
  The predicate that the loop conditions of \<open>core_list_find\<close> negate: by \<open>idx\<close> when the
  criteria's \<open>idx\<close> is not negative, by the low byte of \<open>data16\<close> otherwise.
\<close>

definition matches :: "heap \<Rightarrow> list_data \<Rightarrow> nat \<Rightarrow> bool" where
  "matches h crit a =
     (if 0 \<le> sint (idx crit) then idx (dat h (info h a)) = idx crit
      else uint (data16 (dat h (info h a)) AND 0xff) = sint (data16 crit))"

lemma find_loop_result:
  assumes "chain (nxt h) list as None"
    and "\<And>a. b (Some a) = (\<not> P a)" and "\<not> b None"
  shows "while_option b (next_of h) list = Some (List.find P as)"
  using assms(1)
proof (induction as arbitrary: list)
  case Nil
  then show ?case using assms(3) by (subst while_option_unfold) simp
next
  case (Cons a as)
  then have l: "list = Some a" and ch: "chain (nxt h) (nxt h a) as None" by auto
  show ?case
  proof (cases "P a")
    case True
    then show ?thesis using l assms(2) by (subst while_option_unfold) simp
  next
    case False
    have step: "next_of h (Some a) = nxt h a" by (simp add: next_of_def)
    from False show ?thesis using l assms(2) Cons.IH [OF ch] step
      by (subst while_option_unfold) simp
  qed
qed

lemma find_loop_visits:
  assumes "chain (nxt h) list as None"
    and "\<And>a. b (Some a) = (\<not> P a)" and "\<not> b None"
  shows "\<exists>k\<le>length as. while_option b (next_of h) list = Some ((next_of h ^^ k) list)
            \<and> (\<forall>i<k. (next_of h ^^ i) list = Some (as ! i) \<and> \<not> P (as ! i))"
  using assms(1)
proof (induction as arbitrary: list)
  case Nil
  then show ?case using assms(3) by (subst while_option_unfold) simp
next
  case (Cons a as)
  then have l: "list = Some a" and ch: "chain (nxt h) (nxt h a) as None" by auto
  show ?case
  proof (cases "P a")
    case True
    then have "while_option b (next_of h) list = Some ((next_of h ^^ 0) list)"
      using l assms(2) by (subst while_option_unfold) simp
    then show ?thesis by blast
  next
    case False
    from Cons.IH [OF ch] obtain k where k: "k \<le> length as"
      "while_option b (next_of h) (nxt h a) = Some ((next_of h ^^ k) (nxt h a))"
      "\<forall>i<k. (next_of h ^^ i) (nxt h a) = Some (as ! i) \<and> \<not> P (as ! i)" by blast
    have step: "next_of h list = nxt h a" using l by (simp add: next_of_def)
    have "while_option b (next_of h) list = Some ((next_of h ^^ Suc k) list)"
      using l assms(2) False k(2) step
      by (subst while_option_unfold) (simp add: funpow_swap1)
    moreover have "\<forall>i<Suc k. (next_of h ^^ i) list = Some ((a # as) ! i)
                      \<and> \<not> P ((a # as) ! i)"
    proof (intro allI impI)
      fix i assume "i < Suc k"
      then show "(next_of h ^^ i) list = Some ((a # as) ! i) \<and> \<not> P ((a # as) ! i)"
        using k(3) l False step by (cases i) (auto simp: funpow_swap1)
    qed
    ultimately show ?thesis using k(1) by (intro exI [of _ "Suc k"]) simp
  qed
qed

lemma core_list_find_loop:
  "core_list_find h list crit =
     while_option (\<lambda>l. case l of None \<Rightarrow> False | Some a \<Rightarrow> \<not> matches h crit a) (next_of h) list"
proof -
  have "idx_differs h crit = (\<lambda>l. case l of None \<Rightarrow> False | Some a \<Rightarrow> \<not> matches h crit a)"
    if "0 \<le> sint (idx crit)"
    using that by (auto simp: fun_eq_iff idx_differs_def matches_def split: option.splits)
  moreover
  have "data_differs h crit = (\<lambda>l. case l of None \<Rightarrow> False | Some a \<Rightarrow> \<not> matches h crit a)"
    if "\<not> 0 \<le> sint (idx crit)"
    using that by (auto simp: fun_eq_iff data_differs_def matches_def split: option.splits)
  ultimately show ?thesis by (simp add: core_list_find_def)
qed

text \<open>
  C6.  On a list, \<open>core_list_find\<close> returns; what it returns is the first cell of the
  chain that matches the criteria (by \<open>idx\<close> when the criteria's \<open>idx\<close> is not
  negative, by the low byte of \<open>data16\<close> otherwise), and \<open>NULL\<close> exactly when no cell
  of the chain matches.  The loop body runs \<open>k\<close> times with \<open>k\<close> at most the length of
  the chain, and in its \<open>i\<close>-th run \<open>list\<close> is the \<open>i\<close>-th cell of the chain: the cells
  of a list are distinct, so no cell is visited twice.
\<close>

theorem core_list_find_semantics:
  assumes "is_list h list as"
  shows "\<exists>r k. core_list_find h list crit = Some r
           \<and> r = List.find (matches h crit) as
           \<and> (r = None \<longleftrightarrow> (\<forall>a\<in>set as. \<not> matches h crit a))
           \<and> (\<forall>a. r = Some a \<longrightarrow>
                 (\<exists>i<length as. as ! i = a \<and> matches h crit a
                     \<and> (\<forall>j<i. \<not> matches h crit (as ! j))))
           \<and> k \<le> length as \<and> r = (next_of h ^^ k) list
           \<and> (\<forall>i<k. (next_of h ^^ i) list = Some (as ! i) \<and> \<not> matches h crit (as ! i))
           \<and> distinct as"
proof -
  let ?b = "\<lambda>l. case l of None \<Rightarrow> False | Some a \<Rightarrow> \<not> matches h crit a"
  from assms have ch: "chain (nxt h) list as None" and d: "distinct as"
    by (simp_all add: is_list_def)
  have res: "core_list_find h list crit = Some (List.find (matches h crit) as)"
    unfolding core_list_find_loop by (rule find_loop_result [OF ch]) simp_all
  from find_loop_visits [OF ch, of ?b "matches h crit"]
  obtain k where k: "k \<le> length as"
    "while_option ?b (next_of h) list = Some ((next_of h ^^ k) list)"
    "\<forall>i<k. (next_of h ^^ i) list = Some (as ! i) \<and> \<not> matches h crit (as ! i)"
    by auto
  from k(2) res have rk: "List.find (matches h crit) as = (next_of h ^^ k) list"
    by (simp add: core_list_find_loop)
  have none: "List.find (matches h crit) as = None \<longleftrightarrow> (\<forall>a\<in>set as. \<not> matches h crit a)"
    by (auto simp: find_None_iff)
  have some: "\<forall>a. List.find (matches h crit) as = Some a \<longrightarrow>
                 (\<exists>i<length as. as ! i = a \<and> matches h crit a
                     \<and> (\<forall>j<i. \<not> matches h crit (as ! j)))"
    by (auto simp: find_Some_iff)
  show ?thesis
  proof (intro exI conjI)
    show "core_list_find h list crit = Some (List.find (matches h crit) as)" by (rule res)
    show "List.find (matches h crit) as = (next_of h ^^ k) list" by (rule rk)
  qed (use none some k(1) k(3) d in simp_all)
qed

text \<open>
  Two searches in the list \<open>0 \<rightarrow> 1 \<rightarrow> 2\<close> whose records carry \<open>idx\<close> and \<open>data16\<close> equal
  to the cell number: by \<open>idx\<close> 1, found at the second cell after one step, and by the
  data byte 7, not found after three.
\<close>

theorem core_list_find_semantics_witness:
  "is_list heap3 (Some 0) [0, 1, 2]
   \<and> (\<exists>r k. core_list_find heap3 (Some 0) \<lparr>data16 = 0, idx = 1\<rparr> = Some r
           \<and> r = List.find (matches heap3 \<lparr>data16 = 0, idx = 1\<rparr>) [0, 1, 2]
           \<and> (r = None \<longleftrightarrow> (\<forall>a\<in>set [0, 1, 2]. \<not> matches heap3 \<lparr>data16 = 0, idx = 1\<rparr> a))
           \<and> (\<forall>a. r = Some a \<longrightarrow>
                 (\<exists>i<length [0, 1, 2 :: nat]. [0, 1, 2] ! i = a
                     \<and> matches heap3 \<lparr>data16 = 0, idx = 1\<rparr> a
                     \<and> (\<forall>j<i. \<not> matches heap3 \<lparr>data16 = 0, idx = 1\<rparr> ([0, 1, 2] ! j))))
           \<and> k \<le> length [0, 1, 2 :: nat] \<and> r = (next_of heap3 ^^ k) (Some 0)
           \<and> (\<forall>i<k. (next_of heap3 ^^ i) (Some 0) = Some ([0, 1, 2] ! i)
                  \<and> \<not> matches heap3 \<lparr>data16 = 0, idx = 1\<rparr> ([0, 1, 2] ! i))
           \<and> distinct [0, 1, 2 :: nat])"
proof -
  have l: "is_list heap3 (Some 0) [0, 1, 2]"
    by (simp add: is_list_def heap3_def)
  from core_list_find_semantics [OF l, of "\<lparr>data16 = 0, idx = 1\<rparr>"] l
  show ?thesis by blast
qed

section \<open>Merging runs of a list\<close>

text \<open>
  The result of the sort is described on plain lists of cells.  \<open>merge_runs\<close> is the
  merge that takes from the left run while its head is not greater; \<open>pass_runs le k\<close>
  is one pass over a list cut into runs of length \<open>k\<close>, and \<open>pass_count\<close> the number of
  merges the pass counts.  \<open>runs_sorted le k xs\<close> says that each of the runs of length
  \<open>k\<close> of \<open>xs\<close> is sorted.
\<close>

fun merge_runs :: "('a \<Rightarrow> 'a \<Rightarrow> bool) \<Rightarrow> 'a list \<Rightarrow> 'a list \<Rightarrow> 'a list" where
  "merge_runs le [] ys = ys"
| "merge_runs le (x # xs) [] = x # xs"
| "merge_runs le (x # xs) (y # ys) =
     (if le x y then x # merge_runs le xs (y # ys) else y # merge_runs le (x # xs) ys)"

lemma merge_runs_Nil2 [simp]: "merge_runs le xs [] = xs"
  by (cases xs) simp_all

lemma mset_merge_runs: "mset (merge_runs le xs ys) = mset xs + mset ys"
  by (induction le xs ys rule: merge_runs.induct) simp_all

lemma set_merge_runs: "set (merge_runs le xs ys) = set xs \<union> set ys"
  by (induction le xs ys rule: merge_runs.induct) auto

lemma length_merge_runs: "length (merge_runs le xs ys) = length xs + length ys"
  by (induction le xs ys rule: merge_runs.induct) simp_all

definition total_preorder :: "('a \<Rightarrow> 'a \<Rightarrow> bool) \<Rightarrow> bool" where
  "total_preorder le = ((\<forall>x y. le x y \<or> le y x) \<and> (\<forall>x y z. le x y \<longrightarrow> le y z \<longrightarrow> le x z))"

lemma sorted_merge_runs:
  "total_preorder le \<Longrightarrow> sorted_wrt le xs \<Longrightarrow> sorted_wrt le ys
     \<Longrightarrow> sorted_wrt le (merge_runs le xs ys)"
proof (induction le xs ys rule: merge_runs.induct)
  case (3 le x xs y ys)
  from "3.prems"(1) have tot: "\<And>a b. le a b \<or> le b a"
    and tr: "\<And>a b c. le a b \<Longrightarrow> le b c \<Longrightarrow> le a c"
    unfolding total_preorder_def by blast+
  show ?case
  proof (cases "le x y")
    case True
    have "\<forall>z\<in>set (merge_runs le xs (y # ys)). le x z"
      using "3.prems" True tr by (auto simp: set_merge_runs)
    with 3 True show ?thesis by simp
  next
    case False
    then have yx: "le y x" using tot by blast
    have "\<forall>z\<in>set (merge_runs le (x # xs) ys). le y z"
      using "3.prems" yx tr by (auto simp: set_merge_runs)
    with 3 False show ?thesis by simp
  qed
qed simp_all

definition equiv_to :: "('a \<Rightarrow> 'a \<Rightarrow> bool) \<Rightarrow> 'a \<Rightarrow> 'a \<Rightarrow> bool" where
  "equiv_to le z y = (le z y \<and> le y z)"

lemma stable_merge_runs:
  "total_preorder le \<Longrightarrow> sorted_wrt le xs
     \<Longrightarrow> filter (equiv_to le z) (merge_runs le xs ys)
         = filter (equiv_to le z) xs @ filter (equiv_to le z) ys"
proof (induction le xs ys rule: merge_runs.induct)
  case (3 le x xs y ys)
  from "3.prems"(1) have tot: "\<And>a b. le a b \<or> le b a"
    and tr: "\<And>a b c. le a b \<Longrightarrow> le b c \<Longrightarrow> le a c"
    unfolding total_preorder_def by blast+
  show ?case
  proof (cases "le x y")
    case True
    with 3 show ?thesis by simp
  next
    case False
    have "filter (equiv_to le z) (x # xs) = []" if "equiv_to le z y"
    proof -
      have "\<not> equiv_to le z a" if "a \<in> set (x # xs)" for a
      proof
        assume e: "equiv_to le z a"
        have "le x a" using that "3.prems"(2) tot [of x x] by auto
        moreover have "le a y" using e \<open>equiv_to le z y\<close> tr unfolding equiv_to_def by blast
        ultimately show False using False tr by blast
      qed
      then show ?thesis by (simp add: filter_empty_conv)
    qed
    with 3 False show ?thesis by auto
  qed
qed simp_all

function pass_runs :: "('a \<Rightarrow> 'a \<Rightarrow> bool) \<Rightarrow> nat \<Rightarrow> 'a list \<Rightarrow> 'a list" where
  "pass_runs le k xs =
     (if xs = [] \<or> k = 0 then []
      else merge_runs le (take k xs) (take k (drop k xs)) @ pass_runs le k (drop (2 * k) xs))"
  by pat_completeness auto
termination
  by (relation "measure (\<lambda>(le, k, xs). length xs)") auto

declare pass_runs.simps [simp del]

function pass_count :: "nat \<Rightarrow> 'a list \<Rightarrow> nat" where
  "pass_count k xs = (if xs = [] \<or> k = 0 then 0 else Suc (pass_count k (drop (2 * k) xs)))"
  by pat_completeness auto
termination
  by (relation "measure (\<lambda>(k, xs). length xs)") auto

declare pass_count.simps [simp del]

function runs_sorted :: "('a \<Rightarrow> 'a \<Rightarrow> bool) \<Rightarrow> nat \<Rightarrow> 'a list \<Rightarrow> bool" where
  "runs_sorted le k xs =
     (if xs = [] \<or> k = 0 then True
      else sorted_wrt le (take k xs) \<and> runs_sorted le k (drop k xs))"
  by pat_completeness auto
termination
  by (relation "measure (\<lambda>(le, k, xs). length xs)") auto

declare runs_sorted.simps [simp del]

lemma pass_runs_Nil [simp]: "pass_runs le k [] = []"
  by (simp add: pass_runs.simps)

lemma runs_sorted_Nil [simp]: "runs_sorted le k []"
  by (simp add: runs_sorted.simps)

lemma pass_count_Nil [simp]: "pass_count k [] = 0"
  by (simp add: pass_count.simps)

lemma mset_pass_runs: "0 < k \<Longrightarrow> mset (pass_runs le k xs) = mset xs"
proof (induction le k xs rule: pass_runs.induct)
  case (1 le k xs)
  show ?case
  proof (cases "xs = []")
    case True
    then show ?thesis by simp
  next
    case False
    have "mset (take k xs) + mset (take k (drop k xs)) + mset (drop (2 * k) xs) = mset xs"
    proof -
      have "xs = take k xs @ take k (drop k xs) @ drop (2 * k) xs"
        by (simp add: mult_2 flip: drop_drop)
      then have "mset xs = mset (take k xs @ take k (drop k xs) @ drop (2 * k) xs)" by simp
      then show ?thesis by (simp only: mset_append add.assoc)
    qed
    with 1 False show ?thesis
      by (subst pass_runs.simps) (simp add: mset_merge_runs)
  qed
qed

lemma runs_sorted_one: "runs_sorted le (Suc 0) xs"
proof (induction xs)
  case Nil
  then show ?case by simp
next
  case (Cons a xs)
  then show ?case by (subst runs_sorted.simps) simp
qed

lemma runs_sorted_all: "runs_sorted le k xs \<Longrightarrow> 0 < k \<Longrightarrow> length xs \<le> k \<Longrightarrow> sorted_wrt le xs"
  by (subst (asm) runs_sorted.simps) (auto split: if_splits)

lemma runs_sorted_take: "0 < k \<Longrightarrow> runs_sorted le k xs \<Longrightarrow> sorted_wrt le (take k xs)"
  by (cases "xs = []") (simp, subst (asm) runs_sorted.simps, simp)

lemma runs_sorted_drop: "0 < k \<Longrightarrow> runs_sorted le k xs \<Longrightarrow> runs_sorted le k (drop k xs)"
  by (cases "xs = []") (simp, subst (asm) runs_sorted.simps, simp)

lemma runs_sorted_pass:
  "total_preorder le \<Longrightarrow> 0 < k \<Longrightarrow> runs_sorted le k xs
     \<Longrightarrow> runs_sorted le (2 * k) (pass_runs le k xs)"
proof (induction le k xs rule: pass_runs.induct)
  case (1 le k xs)
  show ?case
  proof (cases "xs = []")
    case True
    then show ?thesis by simp
  next
    case False
    let ?M = "merge_runs le (take k xs) (take k (drop k xs))"
    let ?R = "pass_runs le k (drop (2 * k) xs)"
    have s1: "sorted_wrt le (take k xs)" and r1: "runs_sorted le k (drop k xs)"
      using "1.prems"(2,3) by (simp_all add: runs_sorted_take runs_sorted_drop)
    have s2: "sorted_wrt le (take k (drop k xs))"
      using "1.prems"(2) r1 by (rule runs_sorted_take)
    have r2: "runs_sorted le k (drop (2 * k) xs)"
      using runs_sorted_drop [OF "1.prems"(2) r1] by (simp add: mult_2)
    have sM: "sorted_wrt le ?M"
      using "1.prems"(1) s1 s2 by (rule sorted_merge_runs)
    have rR: "runs_sorted le (2 * k) ?R"
      using "1.IH" False "1.prems"(1,2) r2 by simp
    have eq: "pass_runs le k xs = ?M @ ?R"
      using False "1.prems"(2) by (subst pass_runs.simps) simp
    have lenM: "length ?M = min (2 * k) (length xs)"
      by (simp add: length_merge_runs)
    have M_ne: "?M \<noteq> []"
    proof
      assume "?M = []"
      then have "min (2 * k) (length xs) = 0" using lenM by simp
      with False "1.prems"(2) show False by (simp add: min_def split: if_splits)
    qed
    show ?thesis
    proof (cases "2 * k \<le> length xs")
      case True
      then have "length ?M = 2 * k" using lenM by simp
      then have "take (2 * k) (?M @ ?R) = ?M" "drop (2 * k) (?M @ ?R) = ?R" by simp_all
      then show ?thesis unfolding eq using sM rR M_ne "1.prems"(2)
        by (subst runs_sorted.simps) simp
    next
      case False
      then have "drop (2 * k) xs = []" by simp
      then have R: "?R = []" by simp
      have "length ?M \<le> 2 * k" using lenM by simp
      then show ?thesis unfolding eq R using sM M_ne
        by (subst runs_sorted.simps) simp
    qed
  qed
qed

lemma stable_pass_runs:
  "total_preorder le \<Longrightarrow> 0 < k \<Longrightarrow> runs_sorted le k xs
     \<Longrightarrow> filter (equiv_to le z) (pass_runs le k xs) = filter (equiv_to le z) xs"
proof (induction le k xs rule: pass_runs.induct)
  case (1 le k xs)
  show ?case
  proof (cases "xs = []")
    case True
    then show ?thesis by simp
  next
    case False
    have s1: "sorted_wrt le (take k xs)" and r1: "runs_sorted le k (drop k xs)"
      using "1.prems"(2,3) by (simp_all add: runs_sorted_take runs_sorted_drop)
    have r2: "runs_sorted le k (drop (2 * k) xs)"
      using runs_sorted_drop [OF "1.prems"(2) r1] by (simp add: mult_2)
    have IH: "filter (equiv_to le z) (pass_runs le k (drop (2 * k) xs))
                = filter (equiv_to le z) (drop (2 * k) xs)"
      using "1.IH" False "1.prems"(1,2) r2 by simp
    have split: "xs = take k xs @ take k (drop k xs) @ drop (2 * k) xs"
      by (simp add: mult_2 flip: drop_drop)
    have "filter (equiv_to le z) (pass_runs le k xs)
            = filter (equiv_to le z) (take k xs) @ filter (equiv_to le z) (take k (drop k xs))
                @ filter (equiv_to le z) (drop (2 * k) xs)"
      using False "1.prems"(2) IH stable_merge_runs [OF "1.prems"(1) s1]
      by (subst pass_runs.simps) simp
    also have "\<dots> = filter (equiv_to le z) (take k xs @ take k (drop k xs) @ drop (2 * k) xs)"
      by simp
    also have "\<dots> = filter (equiv_to le z) xs" using split by simp
    finally show ?thesis .
  qed
qed

lemma pass_count_le_one: "0 < k \<Longrightarrow> pass_count k xs \<le> 1 \<longleftrightarrow> length xs \<le> 2 * k"
  by (subst pass_count.simps, subst pass_count.simps) simp

lemma pass_count_le_length: "pass_count k xs \<le> length xs"
proof (induction k xs rule: pass_count.induct)
  case (1 k xs)
  show ?case
  proof (cases "xs = [] \<or> k = 0")
    case True
    then show ?thesis by (subst pass_count.simps) simp
  next
    case False
    with 1 have "pass_count k (drop (2 * k) xs) \<le> length xs - 2 * k" by simp
    with False show ?thesis by (subst pass_count.simps) (cases xs; simp)
  qed
qed

lemma pass_runs_short:
  "0 < k \<Longrightarrow> length xs \<le> 2 * k \<Longrightarrow> pass_runs le k xs = merge_runs le (take k xs) (drop k xs)"
  by (subst pass_runs.simps) simp

section \<open>The loops of the sort on the heap\<close>

text \<open>
  \<open>merged_inv\<close>: the merged list built so far consists of the cells \<open>out\<close>: \<open>list\<close>
  leads through them to \<open>tail\<close>, their last; the link of \<open>tail\<close> itself is not yet
  set.  \<open>pure_on\<close>: on the records of the cells in \<open>A\<close> the comparator writes neither
  the records nor its context, and its result is not positive exactly where \<open>le\<close>
  holds.
\<close>

lemma chain_cong_on:
  "(\<And>a. a \<in> set as \<Longrightarrow> nx' a = nx a) \<Longrightarrow> chain nx' p as q = chain nx p as q"
  by (induction as arbitrary: p) auto

lemma chain_snoc:
  "chain nx p (as @ [a]) q = (chain nx p as (Some a) \<and> nx a = q)"
  by (auto simp: chain_append)

definition merged_inv :: "(nat \<Rightarrow> ptr) \<Rightarrow> ptr \<Rightarrow> ptr \<Rightarrow> nat list \<Rightarrow> bool" where
  "merged_inv nx list tail out =
     (if out = [] then tail = None
      else tail = Some (last out) \<and> chain nx list (butlast out) (Some (last out)))"

definition pure_on ::
  "'r list_cmp \<Rightarrow> (nat \<Rightarrow> nat) \<Rightarrow> (nat \<Rightarrow> list_data) \<Rightarrow> 'r \<Rightarrow> nat set
     \<Rightarrow> (nat \<Rightarrow> nat \<Rightarrow> bool) \<Rightarrow> bool" where
  "pure_on cmp inf0 d res A le =
     (\<forall>a\<in>A. \<forall>b\<in>A. \<exists>c. cmp (inf0 a) (inf0 b) res d = (c, d, res) \<and> (sint c \<le> 0) = le a b)"

definition merge_inv ::
  "'r sort_state \<Rightarrow> nat list \<Rightarrow> nat list \<Rightarrow> nat list \<Rightarrow> nat list \<Rightarrow> bool" where
  "merge_inv s out P Q R =
     (merged_inv (nxt (mem s)) (list_ptr s) (tail_ptr s) out
      \<and> (\<exists>pe. chain (nxt (mem s)) (p_ptr s) P pe) \<and> psize s = int (length P)
      \<and> chain (nxt (mem s)) (q_ptr s) (Q @ R) None
      \<and> (int (length Q) = qsize s \<or> (int (length Q) < qsize s \<and> R = []))
      \<and> distinct (out @ P @ Q @ R))"

text \<open>What a step of the sort leaves alone.\<close>

definition same_but_links :: "'r sort_state \<Rightarrow> 'r sort_state \<Rightarrow> nat set \<Rightarrow> bool" where
  "same_but_links s s' A =
     (info (mem s') = info (mem s) \<and> dat (mem s') = dat (mem s) \<and> ctx s' = ctx s
      \<and> insize s' = insize s \<and> nmerges s' = nmerges s
      \<and> (\<forall>a. a \<notin> A \<longrightarrow> nxt (mem s') a = nxt (mem s) a))"

lemma same_but_links_refl: "same_but_links s s A"
  by (simp add: same_but_links_def)

lemma same_but_links_trans:
  "same_but_links s s1 A \<Longrightarrow> same_but_links s1 s2 B \<Longrightarrow> A \<subseteq> C \<Longrightarrow> B \<subseteq> C
     \<Longrightarrow> same_but_links s s2 C"
  unfolding same_but_links_def by (intro conjI allI impI; (simp; fail | metis subsetD))

lemma add_merged_inv:
  assumes "merged_inv (nxt (mem s)) (list_ptr s) (tail_ptr s) out"
    and "distinct (out @ [e])"
  shows "merged_inv (nxt (mem (add_merged e s))) (list_ptr (add_merged e s))
           (tail_ptr (add_merged e s)) (out @ [e])"
proof (cases "out = []")
  case True
  with assms show ?thesis by (simp add: merged_inv_def add_merged_def)
next
  case False
  then obtain bs t where out: "out = bs @ [t]" by (metis append_butlast_last_id)
  with assms have t: "tail_ptr s = Some t" and ch: "chain (nxt (mem s)) (list_ptr s) bs (Some t)"
    by (simp_all add: merged_inv_def)
  from assms(2) out have "t \<notin> set bs" by simp
  with ch have "chain ((nxt (mem s))(t := Some e)) (list_ptr s) bs (Some t)"
    by (simp add: chain_update_other)
  then show ?thesis using t out
    by (simp add: merged_inv_def add_merged_def chain_snoc butlast_append)
qed

lemma add_merged_frame:
  assumes "merged_inv (nxt (mem s)) (list_ptr s) (tail_ptr s) out"
  shows "same_but_links s (add_merged e s) (set out)"
  using assms
  by (auto simp: merged_inv_def add_merged_def same_but_links_def split: option.splits if_splits)

lemma add_merged_fields:
  "p_ptr (add_merged e s) = p_ptr s" "q_ptr (add_merged e s) = q_ptr s"
  "psize (add_merged e s) = psize s" "qsize (add_merged e s) = qsize s"
  by (simp_all add: add_merged_def split: option.splits)

lemma take_p_inv:
  assumes "merge_inv s out (x # P) Q R"
  shows "\<exists>s1. take_p s = Some s1 \<and> merge_inv s1 (out @ [x]) P Q R
            \<and> same_but_links s s1 (set out)"
proof -
  let ?s0 = "s\<lparr>p_ptr := nxt (mem s) x, psize := psize s - 1\<rparr>"
  let ?s1 = "add_merged x ?s0"
  from assms have p: "p_ptr s = Some x"
    and m: "merged_inv (nxt (mem s)) (list_ptr s) (tail_ptr s) out"
    and d: "distinct (out @ x # P @ Q @ R)"
    and chq: "chain (nxt (mem s)) (q_ptr s) (Q @ R) None"
    and ps: "psize s = int (length (x # P))"
    and qs: "int (length Q) = qsize s \<or> (int (length Q) < qsize s \<and> R = [])"
    by (auto simp: merge_inv_def)
  from assms obtain pe where chp: "chain (nxt (mem s)) (nxt (mem s) x) P pe"
    by (auto simp: merge_inv_def)
  have tk: "take_p s = Some ?s1" using p by (simp add: take_p_def)
  have m0: "merged_inv (nxt (mem ?s0)) (list_ptr ?s0) (tail_ptr ?s0) out" using m by simp
  have fr: "same_but_links s ?s1 (set out)"
    using add_merged_frame [OF m0, of x] by (simp add: same_but_links_def)
  then have nx: "\<And>a. a \<notin> set out \<Longrightarrow> nxt (mem ?s1) a = nxt (mem s) a"
    by (simp add: same_but_links_def)
  have d1: "distinct (out @ [x])" using d by simp
  have m1: "merged_inv (nxt (mem ?s1)) (list_ptr ?s1) (tail_ptr ?s1) (out @ [x])"
    using add_merged_inv [OF m0 d1] .
  have chp1: "chain (nxt (mem ?s1)) (nxt (mem s) x) P pe"
    using chp d nx by (subst chain_cong_on [where nx = "nxt (mem s)"]) auto
  have chq1: "chain (nxt (mem ?s1)) (q_ptr s) (Q @ R) None"
    using chq d nx by (subst chain_cong_on [where nx = "nxt (mem s)"]) auto
  have "merge_inv ?s1 (out @ [x]) P Q R"
    unfolding merge_inv_def using m1 chp1 chq1 ps qs d
    by (auto simp: add_merged_fields)
  with tk fr show ?thesis by blast
qed

lemma take_q_inv:
  assumes "merge_inv s out P (y # Q) R"
  shows "\<exists>s1. take_q s = Some s1 \<and> merge_inv s1 (out @ [y]) P Q R
            \<and> same_but_links s s1 (set out)"
proof -
  let ?s0 = "s\<lparr>q_ptr := nxt (mem s) y, qsize := qsize s - 1\<rparr>"
  let ?s1 = "add_merged y ?s0"
  from assms have q: "q_ptr s = Some y"
    and m: "merged_inv (nxt (mem s)) (list_ptr s) (tail_ptr s) out"
    and d: "distinct (out @ P @ y # Q @ R)"
    and chq: "chain (nxt (mem s)) (nxt (mem s) y) (Q @ R) None"
    and ps: "psize s = int (length P)"
    and qs: "int (length (y # Q)) = qsize s \<or> (int (length (y # Q)) < qsize s \<and> R = [])"
    by (auto simp: merge_inv_def)
  from assms obtain pe where chp: "chain (nxt (mem s)) (p_ptr s) P pe"
    by (auto simp: merge_inv_def)
  have tk: "take_q s = Some ?s1" using q by (simp add: take_q_def)
  have m0: "merged_inv (nxt (mem ?s0)) (list_ptr ?s0) (tail_ptr ?s0) out" using m by simp
  have fr: "same_but_links s ?s1 (set out)"
    using add_merged_frame [OF m0, of y] by (simp add: same_but_links_def)
  then have nx: "\<And>a. a \<notin> set out \<Longrightarrow> nxt (mem ?s1) a = nxt (mem s) a"
    by (simp add: same_but_links_def)
  have d1: "distinct (out @ [y])" using d by simp
  have m1: "merged_inv (nxt (mem ?s1)) (list_ptr ?s1) (tail_ptr ?s1) (out @ [y])"
    using add_merged_inv [OF m0 d1] .
  have chp1: "chain (nxt (mem ?s1)) (p_ptr s) P pe"
    using chp d nx by (subst chain_cong_on [where nx = "nxt (mem s)"]) auto
  have chq1: "chain (nxt (mem ?s1)) (nxt (mem s) y) (Q @ R) None"
    using chq d nx by (subst chain_cong_on [where nx = "nxt (mem s)"]) auto
  have "merge_inv ?s1 (out @ [y]) P Q R"
    unfolding merge_inv_def using m1 chp1 chq1 ps qs d
    by (auto simp: add_merged_fields)
  with tk fr show ?thesis by blast
qed

lemma step_q_correct:
  assumes "chain (nxt (mem s)) (q_ptr s) bs None" and "bs \<noteq> []" and "i_cnt s \<le> insize s"
    and "m = min (nat (insize s - i_cnt s)) (length bs)"
  shows "\<exists>qp ic. step_q s = Some (s\<lparr>psize := psize s + int m, q_ptr := qp, i_cnt := ic\<rparr>)
            \<and> chain (nxt (mem s)) qp (drop m bs) None"
  using assms
proof (induction bs arbitrary: s m)
  case Nil
  then show ?case by simp
next
  case (Cons b bs)
  then have q: "q_ptr s = Some b" and ch: "chain (nxt (mem s)) (nxt (mem s) b) bs None"
    by auto
  show ?case
  proof (cases "i_cnt s < insize s")
    case False
    with Cons.prems have "m = 0" by simp
    moreover have "s\<lparr>psize := psize s, q_ptr := q_ptr s, i_cnt := i_cnt s\<rparr> = s" by simp
    ultimately show ?thesis using False Cons.prems(1)
      by (subst step_q.simps) (auto intro!: exI [of _ "q_ptr s"] exI [of _ "i_cnt s"])
  next
    case True
    show ?thesis
    proof (cases bs)
      case Nil
      with ch have nx: "nxt (mem s) b = None" by simp
      from True Nil Cons.prems(4) have m: "m = 1" by simp
      show ?thesis using True q nx m Nil
        by (subst step_q.simps) (auto intro!: exI [of _ None] exI [of _ "i_cnt s"])
    next
      case (Cons b' bs')
      let ?s1 = "s\<lparr>psize := psize s + 1, q_ptr := nxt (mem s) b, i_cnt := i_cnt s + 1\<rparr>"
      from ch Cons have nx: "nxt (mem s) b \<noteq> None" by auto
      have m': "m - 1 = min (nat (insize ?s1 - i_cnt ?s1)) (length bs)"
      proof -
        define N where "N = nat (insize s - i_cnt s)"
        have N1: "nat (insize ?s1 - i_cnt ?s1) = N - 1"
          using True unfolding N_def by simp
        have N2: "N \<ge> 1" using True unfolding N_def by linarith
        have "m = min N (Suc (length bs))" using \<open>m = min (nat (insize s - i_cnt s)) (length (b # bs))\<close>
          unfolding N_def by simp
        with N2 have "m - 1 = min (N - 1) (length bs)" by (auto simp: min_def)
        with N1 show ?thesis by simp
      qed
      have mpos: "m \<ge> 1" using True Cons.prems(4) by simp
      from Cons.IH [of ?s1 "m - 1"] ch Cons True m'
      obtain qp ic where
        "step_q ?s1 = Some (?s1\<lparr>psize := psize ?s1 + int (m - 1), q_ptr := qp, i_cnt := ic\<rparr>)"
        "chain (nxt (mem s)) qp (drop (m - 1) bs) None"
        by auto
      moreover have "drop m (b # bs) = drop (m - 1) bs" using mpos by (cases m) simp_all
      moreover have "psize s + 1 + int (m - 1) = psize s + int m" using mpos by simp
      ultimately show ?thesis using True q nx
        by (subst step_q.simps) (auto intro!: exI [of _ qp] exI [of _ ic])
    qed
  qed
qed

lemma distinct_merge_runs:
  "distinct (merge_runs le xs ys) = distinct (xs @ ys)"
  using mset_eq_imp_distinct_iff [of "merge_runs le xs ys" "xs @ ys"]
  by (simp add: mset_merge_runs)

lemma merged_inv_close:
  assumes "merged_inv nx list tail out" and "out \<noteq> []" and "distinct out"
  shows "\<exists>t. tail = Some t \<and> t = last out \<and> chain (nx(t := None)) list out None"
proof -
  from assms obtain bs t where out: "out = bs @ [t]" by (metis append_butlast_last_id)
  with assms have t: "tail = Some t" and ch: "chain nx list bs (Some t)" and nin: "t \<notin> set bs"
    by (simp_all add: merged_inv_def)
  from ch nin have "chain (nx(t := None)) list bs (Some t)" by (simp add: chain_update_other)
  then show ?thesis using t out by (simp add: chain_snoc)
qed

lemma length_pass_runs: "0 < k \<Longrightarrow> length (pass_runs le k xs) = length xs"
  using mset_pass_runs [of k le xs] by (metis size_mset)

section \<open>Comparators that write to the records\<close>

text \<open>
  The comparators of the benchmark write to the records they compare: \<open>cmp_idx\<close>
  regenerates the low byte of \<open>data16\<close> and \<open>cmp_complex\<close> stores the result of the
  kernel in \<open>data16\<close>.  The order of the cells is therefore a function \<open>LE d res\<close> of
  the records \<open>d\<close> and the context \<open>res\<close>, and \<open>FX d res a\<close> says that the record of
  the cell \<open>a\<close> is settled.  \<open>ext_on\<close>: from one state to a later one the settled cells
  of \<open>A\<close> stay settled and the order between them is the same.  \<open>cmp_on\<close>: in every
  state that satisfies the invariant \<open>J\<close> the order is a total preorder, and a call of
  the comparator on two cells of \<open>A\<close> keeps \<open>J\<close>, settles both cells, returns a value
  that is not positive exactly where the order after the call holds, and extends the
  state.
\<close>

definition ext_on ::
  "nat set \<Rightarrow> ((nat \<Rightarrow> list_data) \<Rightarrow> 'r \<Rightarrow> nat \<Rightarrow> bool)
     \<Rightarrow> ((nat \<Rightarrow> list_data) \<Rightarrow> 'r \<Rightarrow> nat \<Rightarrow> nat \<Rightarrow> bool)
     \<Rightarrow> (nat \<Rightarrow> list_data) \<Rightarrow> 'r \<Rightarrow> (nat \<Rightarrow> list_data) \<Rightarrow> 'r \<Rightarrow> bool" where
  "ext_on A FX LE d res d' res' =
     ((\<forall>a\<in>A. FX d res a \<longrightarrow> FX d' res' a)
      \<and> (\<forall>a\<in>A. \<forall>b\<in>A. FX d res a \<longrightarrow> FX d res b \<longrightarrow> LE d' res' a b = LE d res a b))"

lemma ext_on_fx: "ext_on A FX LE d res d' res' \<Longrightarrow> a \<in> A \<Longrightarrow> FX d res a \<Longrightarrow> FX d' res' a"
  by (simp add: ext_on_def)

lemma ext_on_le:
  "ext_on A FX LE d res d' res' \<Longrightarrow> a \<in> A \<Longrightarrow> b \<in> A \<Longrightarrow> FX d res a \<Longrightarrow> FX d res b
     \<Longrightarrow> LE d' res' a b = LE d res a b"
  by (simp add: ext_on_def)

lemma ext_on_refl: "ext_on A FX LE d res d res"
  by (simp add: ext_on_def)

lemma ext_on_trans:
  "ext_on A FX LE d res d1 res1 \<Longrightarrow> ext_on A FX LE d1 res1 d2 res2
     \<Longrightarrow> ext_on A FX LE d res d2 res2"
  unfolding ext_on_def by (intro conjI ballI impI) (simp_all)

definition cmp_on ::
  "'r list_cmp \<Rightarrow> (nat \<Rightarrow> nat) \<Rightarrow> nat set \<Rightarrow> ((nat \<Rightarrow> list_data) \<Rightarrow> 'r \<Rightarrow> bool)
     \<Rightarrow> ((nat \<Rightarrow> list_data) \<Rightarrow> 'r \<Rightarrow> nat \<Rightarrow> bool)
     \<Rightarrow> ((nat \<Rightarrow> list_data) \<Rightarrow> 'r \<Rightarrow> nat \<Rightarrow> nat \<Rightarrow> bool) \<Rightarrow> bool" where
  "cmp_on cmp inf0 A J FX LE =
     ((\<forall>d res. J d res \<longrightarrow> total_preorder (LE d res))
      \<and> (\<forall>d res. J d res \<longrightarrow>
           (\<forall>a\<in>A. \<forall>b\<in>A. \<exists>c d' res'.
              cmp (inf0 a) (inf0 b) res d = (c, d', res')
              \<and> J d' res' \<and> FX d' res' a \<and> FX d' res' b
              \<and> (sint c \<le> 0) = LE d' res' a b
              \<and> ext_on A FX LE d res d' res')))"

definition run_ok :: "(nat \<Rightarrow> bool) \<Rightarrow> (nat \<Rightarrow> nat \<Rightarrow> bool) \<Rightarrow> nat list \<Rightarrow> bool" where
  "run_ok fx le X = (sorted_wrt le X \<and> (length X \<le> 1 \<or> (\<forall>a\<in>set X. fx a)))"

lemma sorted_wrt_short: "length X \<le> 1 \<Longrightarrow> sorted_wrt le X"
  by (cases X) auto

lemma run_ok_ext:
  assumes "ext_on A FX LE d res d' res'" and "set X \<subseteq> A"
    and "run_ok (FX d res) (LE d res) X"
  shows "run_ok (FX d' res') (LE d' res') X"
proof (cases "length X \<le> 1")
  case True
  then have "sorted_wrt (LE d' res') X" by (rule sorted_wrt_short)
  with True show ?thesis by (simp add: run_ok_def)
next
  case False
  with assms(3) have fx: "\<forall>a\<in>set X. FX d res a" and so: "sorted_wrt (LE d res) X"
    by (simp_all add: run_ok_def)
  have fx': "\<forall>a\<in>set X. FX d' res' a"
    using fx assms(2) ext_on_fx [OF assms(1)] by (auto simp: subset_iff)
  have "sorted_wrt (LE d' res') X"
  proof (rule sorted_wrt_mono_rel [OF _ so])
    fix x y assume "x \<in> set X" "y \<in> set X" "LE d res x y"
    then show "LE d' res' x y"
      using fx assms(2) ext_on_le [OF assms(1), of x y] by (auto simp: subset_iff)
  qed
  with fx' show ?thesis by (simp add: run_ok_def)
qed

function runs_all :: "('a list \<Rightarrow> bool) \<Rightarrow> nat \<Rightarrow> 'a list \<Rightarrow> bool" where
  "runs_all Pr k xs =
     (if xs = [] \<or> k = 0 then True else Pr (take k xs) \<and> runs_all Pr k (drop k xs))"
  by pat_completeness auto
termination
  by (relation "measure (\<lambda>(Pr, k, xs). length xs)") auto

declare runs_all.simps [simp del]

lemma runs_all_Nil [simp]: "runs_all Pr k []"
  by (simp add: runs_all.simps)

lemma runs_all_one: "(\<And>x. Pr [x]) \<Longrightarrow> runs_all Pr (Suc 0) xs"
proof (induction xs)
  case Nil
  then show ?case by simp
next
  case (Cons a xs)
  then show ?case by (subst runs_all.simps) simp
qed

lemma runs_all_take: "0 < k \<Longrightarrow> xs \<noteq> [] \<Longrightarrow> runs_all Pr k xs \<Longrightarrow> Pr (take k xs)"
  by (subst (asm) runs_all.simps) simp

lemma runs_all_drop: "0 < k \<Longrightarrow> runs_all Pr k xs \<Longrightarrow> runs_all Pr k (drop k xs)"
  by (cases "xs = []") (simp, subst (asm) runs_all.simps, simp)

lemma runs_all_mono:
  "runs_all Pr k xs \<Longrightarrow> (\<And>X. set X \<subseteq> set xs \<Longrightarrow> Pr X \<Longrightarrow> Pr' X) \<Longrightarrow> runs_all Pr' k xs"
proof (induction Pr k xs rule: runs_all.induct)
  case (1 Pr k xs)
  show ?case
  proof (cases "xs = [] \<or> k = 0")
    case True
    then show ?thesis by (subst runs_all.simps) simp
  next
    case False
    then have k: "0 < k" and ne: "xs \<noteq> []" by simp_all
    have a: "Pr (take k xs)" using k ne "1.prems"(1) by (rule runs_all_take)
    have b: "runs_all Pr k (drop k xs)" using k "1.prems"(1) by (rule runs_all_drop)
    have a': "Pr' (take k xs)" using a "1.prems"(2) [of "take k xs"] by (simp add: set_take_subset)
    have b': "runs_all Pr' k (drop k xs)"
    proof (rule "1.IH" [OF False b])
      fix X assume "set X \<subseteq> set (drop k xs)" "Pr X"
      then show "Pr' X" using "1.prems"(2) [of X] set_drop_subset [of k xs] by blast
    qed
    show ?thesis using False a' b' by (subst runs_all.simps) simp
  qed
qed

lemma runs_all_sorted: "runs_all (run_ok fx le) k xs \<Longrightarrow> runs_sorted le k xs"
proof (induction le k xs rule: runs_sorted.induct)
  case (1 le k xs)
  show ?case
  proof (cases "xs = [] \<or> k = 0")
    case True
    then show ?thesis by (subst runs_sorted.simps) simp
  next
    case False
    then have k: "0 < k" and ne: "xs \<noteq> []" by simp_all
    have a: "run_ok fx le (take k xs)" using k ne "1.prems" by (rule runs_all_take)
    have b: "runs_all (run_ok fx le) k (drop k xs)" using k "1.prems" by (rule runs_all_drop)
    show ?thesis using False a "1.IH" [OF False b]
      by (subst runs_sorted.simps) (simp add: run_ok_def)
  qed
qed

lemma runs_all_whole: "runs_all Pr k xs \<Longrightarrow> 0 < k \<Longrightarrow> length xs \<le> k \<Longrightarrow> xs \<noteq> [] \<Longrightarrow> Pr xs"
  by (subst (asm) runs_all.simps) simp

lemma runs_all_first:
  assumes "Pr M" and "M \<noteq> []" and "0 < k"
    and "length M = k \<or> (length M \<le> k \<and> rest = [])"
    and "runs_all Pr k rest"
  shows "runs_all Pr k (M @ rest)"
proof (cases "length M = k")
  case True
  then have "take k (M @ rest) = M" "drop k (M @ rest) = rest" by simp_all
  then show ?thesis using assms by (subst runs_all.simps) simp
next
  case False
  with assms(4) have "length M \<le> k" "rest = []" by simp_all
  then show ?thesis using assms by (subst runs_all.simps) simp
qed

lemma merge_runs_cong:
  "(\<And>a b. a \<in> set P \<Longrightarrow> b \<in> set Q \<Longrightarrow> le' a b = le a b)
     \<Longrightarrow> merge_runs le' P Q = merge_runs le P Q"
proof (induction le P Q rule: merge_runs.induct)
  case (3 le x xs y ys)
  have xy: "le' x y = le x y" using "3.prems" by simp
  show ?case
  proof (cases "le x y")
    case True
    have "merge_runs le' xs (y # ys) = merge_runs le xs (y # ys)"
      using "3.IH"(1) [OF True] "3.prems" by simp
    with True xy show ?thesis by simp
  next
    case False
    have "merge_runs le' (x # xs) ys = merge_runs le (x # xs) ys"
      using "3.IH"(2) [OF False] "3.prems" by simp
    with False xy show ?thesis by simp
  qed
qed simp_all

subsection \<open>The merge of two runs\<close>

text \<open>
  \<open>links_frame\<close>: what a loop of the sort leaves alone when the comparator may write
  records.  The merge loop returns the merge of its two runs in the order of the state
  it ends in.
\<close>

definition links_frame :: "'r sort_state \<Rightarrow> 'r sort_state \<Rightarrow> nat set \<Rightarrow> bool" where
  "links_frame s s' A =
     (info (mem s') = info (mem s) \<and> insize s' = insize s \<and> nmerges s' = nmerges s
      \<and> (\<forall>a. a \<notin> A \<longrightarrow> nxt (mem s') a = nxt (mem s) a))"

lemma links_frame_refl: "links_frame s s A"
  by (simp add: links_frame_def)

lemma links_frame_trans:
  "links_frame s s1 A \<Longrightarrow> links_frame s1 s2 B \<Longrightarrow> A \<subseteq> C \<Longrightarrow> B \<subseteq> C
     \<Longrightarrow> links_frame s s2 C"
  unfolding links_frame_def by (intro conjI allI impI; (simp; fail | metis subsetD))

lemma same_but_links_frame: "same_but_links s s' A \<Longrightarrow> links_frame s s' A"
  by (simp add: same_but_links_def links_frame_def)

lemma merge_step_cmp:
  assumes "merge_inv s out (x # P) (y # Q) R"
    and "cmp_on cmp (info (mem s)) A J FX LE" and "J (dat (mem s)) (ctx s)"
    and "x \<in> A" and "y \<in> A"
  shows "\<exists>d' res'. merge_step cmp s
             = (if LE d' res' x y
                then take_p (s\<lparr>mem := (mem s)\<lparr>dat := d'\<rparr>, ctx := res'\<rparr>)
                else take_q (s\<lparr>mem := (mem s)\<lparr>dat := d'\<rparr>, ctx := res'\<rparr>))
           \<and> J d' res' \<and> FX d' res' x \<and> FX d' res' y
           \<and> ext_on A FX LE (dat (mem s)) (ctx s) d' res'"
proof -
  from assms(1) have p: "p_ptr s = Some x" and q: "q_ptr s = Some y"
    and ps: "psize s \<noteq> 0" and qs: "qsize s \<noteq> 0"
    by (auto simp: merge_inv_def)
  from assms(2-5) obtain c d' res' where
    c: "cmp (info (mem s) x) (info (mem s) y) (ctx s) (dat (mem s)) = (c, d', res')"
    and J: "J d' res'" and fx: "FX d' res' x" "FX d' res' y"
    and le: "(sint c \<le> 0) = LE d' res' x y"
    and ext: "ext_on A FX LE (dat (mem s)) (ctx s) d' res'"
    unfolding cmp_on_def by blast
  have "merge_step cmp s
             = (if LE d' res' x y
                then take_p (s\<lparr>mem := (mem s)\<lparr>dat := d'\<rparr>, ctx := res'\<rparr>)
                else take_q (s\<lparr>mem := (mem s)\<lparr>dat := d'\<rparr>, ctx := res'\<rparr>))"
    using p q ps qs c le by (simp add: merge_step_def)
  with J fx ext show ?thesis by blast
qed

lemma merge_inv_data:
  "merge_inv (s\<lparr>mem := (mem s)\<lparr>dat := d'\<rparr>, ctx := res'\<rparr>) out P Q R = merge_inv s out P Q R"
  by (simp add: merge_inv_def)

lemma merge_loop_general:
  assumes "merge_inv s out P Q R"
    and "cmp_on cmp (info (mem s)) A J FX LE" and "J (dat (mem s)) (ctx s)"
    and "set P \<union> set Q \<subseteq> A"
  shows "\<exists>s'. merge_loop cmp s = Some s'
           \<and> merged_inv (nxt (mem s')) (list_ptr s') (tail_ptr s')
               (out @ merge_runs (LE (dat (mem s')) (ctx s')) P Q)
           \<and> chain (nxt (mem s')) (q_ptr s') R None
           \<and> links_frame s s' (set (out @ P @ Q))
           \<and> J (dat (mem s')) (ctx s')
           \<and> ext_on A FX LE (dat (mem s)) (ctx s) (dat (mem s')) (ctx s')
           \<and> (P \<noteq> [] \<longrightarrow> Q \<noteq> []
                \<longrightarrow> FX (dat (mem s')) (ctx s') (hd P) \<and> FX (dat (mem s')) (ctx s') (hd Q))"
  using assms
proof (induction "length P + length Q" arbitrary: s out P Q)
  case 0
  then have PQ: "P = []" "Q = []" by simp_all
  with "0.prems"(1) have "psize s = 0" and "qsize s = 0 \<or> q_ptr s = None"
    and "chain (nxt (mem s)) (q_ptr s) R None"
    and "merged_inv (nxt (mem s)) (list_ptr s) (tail_ptr s) out"
    by (auto simp: merge_inv_def)
  then show ?case using PQ "0.prems"(3)
    by (subst merge_loop.simps) (auto simp: links_frame_refl ext_on_refl)
next
  case (Suc n)
  note inv = Suc.prems(1) and cmp = Suc.prems(2) and J = Suc.prems(3) and sub = Suc.prems(4)
  let ?d = "dat (mem s)" and ?r = "ctx s"
  have step: "\<exists>s1 out1 P1 Q1. merge_step cmp s = Some s1 \<and> merge_inv s1 out1 P1 Q1 R
       \<and> links_frame s s1 (set out) \<and> n = length P1 + length Q1
       \<and> set (out1 @ P1 @ Q1) = set (out @ P @ Q) \<and> set P1 \<union> set Q1 \<subseteq> A
       \<and> (psize s > 0 \<or> (qsize s > 0 \<and> q_ptr s \<noteq> None))
       \<and> J (dat (mem s1)) (ctx s1)
       \<and> ext_on A FX LE ?d ?r (dat (mem s1)) (ctx s1)
       \<and> (P \<noteq> [] \<longrightarrow> Q \<noteq> []
            \<longrightarrow> FX (dat (mem s1)) (ctx s1) (hd P) \<and> FX (dat (mem s1)) (ctx s1) (hd Q))
       \<and> (\<forall>d' res'. ext_on A FX LE (dat (mem s1)) (ctx s1) d' res'
            \<longrightarrow> out1 @ merge_runs (LE d' res') P1 Q1 = out @ merge_runs (LE d' res') P Q)"
  proof (cases P)
    case Nil
    with Suc.hyps(2) obtain y Q' where Q: "Q = y # Q'" by (cases Q) auto
    from inv Nil Q have ps: "psize s = 0" and qs: "qsize s > 0" and q: "q_ptr s \<noteq> None"
      by (auto simp: merge_inv_def)
    from take_q_inv [of s out P y Q' R] inv Q
    obtain s1 where tk: "take_q s = Some s1" and inv1: "merge_inv s1 (out @ [y]) P Q' R"
      and fr: "same_but_links s s1 (set out)" by auto
    from fr have same: "dat (mem s1) = ?d" "ctx s1 = ?r" by (simp_all add: same_but_links_def)
    have "merge_step cmp s = Some s1" using tk ps by (simp add: merge_step_def)
    moreover have "merge_inv s1 (out @ [y]) P Q' R" by (rule inv1)
    moreover have "links_frame s s1 (set out)" using fr by (rule same_but_links_frame)
    moreover have "n = length P + length Q'" using Suc.hyps(2) Q by simp
    moreover have "set ((out @ [y]) @ P @ Q') = set (out @ P @ Q)" using Q by auto
    moreover have "set P \<union> set Q' \<subseteq> A" using sub Q by auto
    moreover have "psize s > 0 \<or> (qsize s > 0 \<and> q_ptr s \<noteq> None)" using qs q by simp
    moreover have "J (dat (mem s1)) (ctx s1)" using J same by simp
    moreover have "ext_on A FX LE ?d ?r (dat (mem s1)) (ctx s1)" using same by (simp add: ext_on_refl)
    moreover have "P \<noteq> [] \<longrightarrow> Q \<noteq> []
          \<longrightarrow> FX (dat (mem s1)) (ctx s1) (hd P) \<and> FX (dat (mem s1)) (ctx s1) (hd Q)"
      using Nil by simp
    moreover have "\<forall>d' res'. ext_on A FX LE (dat (mem s1)) (ctx s1) d' res'
          \<longrightarrow> (out @ [y]) @ merge_runs (LE d' res') P Q' = out @ merge_runs (LE d' res') P Q"
      using Nil Q by simp
    ultimately show ?thesis
      by - (rule exI [of _ s1], rule exI [of _ "out @ [y]"], rule exI [of _ P], rule exI [of _ Q'], (intro conjI; assumption))
  next
    case (Cons x P')
    note P = Cons
    show ?thesis
    proof (cases Q)
      case Nil
      from inv P Nil have ps: "psize s > 0" and qs: "qsize s = 0 \<or> q_ptr s = None"
        by (auto simp: merge_inv_def)
      from take_p_inv [of s out x P' Q R] inv P
      obtain s1 where tk: "take_p s = Some s1" and inv1: "merge_inv s1 (out @ [x]) P' Q R"
        and fr: "same_but_links s s1 (set out)" by auto
      from fr have same: "dat (mem s1) = ?d" "ctx s1 = ?r" by (simp_all add: same_but_links_def)
      have "merge_step cmp s = Some s1" using tk ps qs by (auto simp: merge_step_def)
      moreover have "merge_inv s1 (out @ [x]) P' Q R" by (rule inv1)
      moreover have "links_frame s s1 (set out)" using fr by (rule same_but_links_frame)
      moreover have "n = length P' + length Q" using Suc.hyps(2) P by simp
      moreover have "set ((out @ [x]) @ P' @ Q) = set (out @ P @ Q)" using P by auto
      moreover have "set P' \<union> set Q \<subseteq> A" using sub P by auto
      moreover have "psize s > 0 \<or> (qsize s > 0 \<and> q_ptr s \<noteq> None)" using ps by simp
      moreover have "J (dat (mem s1)) (ctx s1)" using J same by simp
      moreover have "ext_on A FX LE ?d ?r (dat (mem s1)) (ctx s1)" using same by (simp add: ext_on_refl)
      moreover have "P \<noteq> [] \<longrightarrow> Q \<noteq> []
            \<longrightarrow> FX (dat (mem s1)) (ctx s1) (hd P) \<and> FX (dat (mem s1)) (ctx s1) (hd Q)"
        using Nil by simp
      moreover have "\<forall>d' res'. ext_on A FX LE (dat (mem s1)) (ctx s1) d' res'
            \<longrightarrow> (out @ [x]) @ merge_runs (LE d' res') P' Q = out @ merge_runs (LE d' res') P Q"
        using Nil P by simp
      ultimately show ?thesis
        by - (rule exI [of _ s1], rule exI [of _ "out @ [x]"], rule exI [of _ P'], rule exI [of _ Q], (intro conjI; assumption))
    next
      case (Cons y Q')
      note Q = Cons
      from inv P Q have ps: "psize s > 0" by (auto simp: merge_inv_def)
      have xA: "x \<in> A" and yA: "y \<in> A" using sub P Q by auto
      from merge_step_cmp [of s out x P' y Q' R cmp A J FX LE] inv cmp J xA yA P Q
      obtain d1 res1 where
        ms: "merge_step cmp s
               = (if LE d1 res1 x y
                  then take_p (s\<lparr>mem := (mem s)\<lparr>dat := d1\<rparr>, ctx := res1\<rparr>)
                  else take_q (s\<lparr>mem := (mem s)\<lparr>dat := d1\<rparr>, ctx := res1\<rparr>))"
        and J1: "J d1 res1" and fx1: "FX d1 res1 x" "FX d1 res1 y"
        and ext1: "ext_on A FX LE ?d ?r d1 res1"
        by auto
      let ?s0 = "s\<lparr>mem := (mem s)\<lparr>dat := d1\<rparr>, ctx := res1\<rparr>"
      have inv0: "merge_inv ?s0 out P Q R" using inv by (simp only: merge_inv_data)
      have fr0: "links_frame s ?s0 (set out)" by (simp add: links_frame_def)
      show ?thesis
      proof (cases "LE d1 res1 x y")
        case True
        from take_p_inv [of ?s0 out x P' Q R] inv0 P
        obtain s1 where tk: "take_p ?s0 = Some s1" and inv1: "merge_inv s1 (out @ [x]) P' Q R"
          and fr: "same_but_links ?s0 s1 (set out)" by auto
        from fr have same: "dat (mem s1) = d1" "ctx s1 = res1"
          by (simp_all add: same_but_links_def)
        have "merge_step cmp s = Some s1" using ms True tk by simp
        moreover have "merge_inv s1 (out @ [x]) P' Q R" by (rule inv1)
        moreover have "links_frame s s1 (set out)"
          using links_frame_trans [OF fr0 same_but_links_frame [OF fr]] by simp
        moreover have "n = length P' + length Q" using Suc.hyps(2) P by simp
        moreover have "set ((out @ [x]) @ P' @ Q) = set (out @ P @ Q)" using P by auto
        moreover have "set P' \<union> set Q \<subseteq> A" using sub P by auto
        moreover have "psize s > 0 \<or> (qsize s > 0 \<and> q_ptr s \<noteq> None)" using ps by simp
        moreover have "J (dat (mem s1)) (ctx s1)" using J1 same by simp
        moreover have "ext_on A FX LE ?d ?r (dat (mem s1)) (ctx s1)" using ext1 same by simp
        moreover have "P \<noteq> [] \<longrightarrow> Q \<noteq> []
              \<longrightarrow> FX (dat (mem s1)) (ctx s1) (hd P) \<and> FX (dat (mem s1)) (ctx s1) (hd Q)"
          using fx1 same P Q by simp
        moreover have "\<forall>d' res'. ext_on A FX LE (dat (mem s1)) (ctx s1) d' res'
              \<longrightarrow> (out @ [x]) @ merge_runs (LE d' res') P' Q = out @ merge_runs (LE d' res') P Q"
        proof (intro allI impI)
          fix d' res' assume e: "ext_on A FX LE (dat (mem s1)) (ctx s1) d' res'"
          have "LE d' res' x y = LE d1 res1 x y"
            using ext_on_le [OF e xA yA] fx1 same by simp
          with True show "(out @ [x]) @ merge_runs (LE d' res') P' Q
                             = out @ merge_runs (LE d' res') P Q"
            using P Q by simp
        qed
        ultimately show ?thesis
          by - (rule exI [of _ s1], rule exI [of _ "out @ [x]"], rule exI [of _ P'], rule exI [of _ Q], (intro conjI; assumption))
      next
        case False
        from take_q_inv [of ?s0 out P y Q' R] inv0 Q
        obtain s1 where tk: "take_q ?s0 = Some s1" and inv1: "merge_inv s1 (out @ [y]) P Q' R"
          and fr: "same_but_links ?s0 s1 (set out)" by auto
        from fr have same: "dat (mem s1) = d1" "ctx s1 = res1"
          by (simp_all add: same_but_links_def)
        have "merge_step cmp s = Some s1" using ms False tk by simp
        moreover have "merge_inv s1 (out @ [y]) P Q' R" by (rule inv1)
        moreover have "links_frame s s1 (set out)"
          using links_frame_trans [OF fr0 same_but_links_frame [OF fr]] by simp
        moreover have "n = length P + length Q'" using Suc.hyps(2) Q by simp
        moreover have "set ((out @ [y]) @ P @ Q') = set (out @ P @ Q)" using Q by auto
        moreover have "set P \<union> set Q' \<subseteq> A" using sub Q by auto
        moreover have "psize s > 0 \<or> (qsize s > 0 \<and> q_ptr s \<noteq> None)" using ps by simp
        moreover have "J (dat (mem s1)) (ctx s1)" using J1 same by simp
        moreover have "ext_on A FX LE ?d ?r (dat (mem s1)) (ctx s1)" using ext1 same by simp
        moreover have "P \<noteq> [] \<longrightarrow> Q \<noteq> []
              \<longrightarrow> FX (dat (mem s1)) (ctx s1) (hd P) \<and> FX (dat (mem s1)) (ctx s1) (hd Q)"
          using fx1 same P Q by simp
        moreover have "\<forall>d' res'. ext_on A FX LE (dat (mem s1)) (ctx s1) d' res'
              \<longrightarrow> (out @ [y]) @ merge_runs (LE d' res') P Q' = out @ merge_runs (LE d' res') P Q"
        proof (intro allI impI)
          fix d' res' assume e: "ext_on A FX LE (dat (mem s1)) (ctx s1) d' res'"
          have "LE d' res' x y = LE d1 res1 x y"
            using ext_on_le [OF e xA yA] fx1 same by simp
          with False show "(out @ [y]) @ merge_runs (LE d' res') P Q'
                             = out @ merge_runs (LE d' res') P Q"
            using P Q by simp
        qed
        ultimately show ?thesis
          by - (rule exI [of _ s1], rule exI [of _ "out @ [y]"], rule exI [of _ P], rule exI [of _ Q'], (intro conjI; assumption))
      qed
    qed
  qed
  then obtain s1 out1 P1 Q1 where s1: "merge_step cmp s = Some s1"
    and inv1: "merge_inv s1 out1 P1 Q1 R"
    and fr1: "links_frame s s1 (set out)" and n: "n = length P1 + length Q1"
    and sets: "set (out1 @ P1 @ Q1) = set (out @ P @ Q)" and sub1: "set P1 \<union> set Q1 \<subseteq> A"
    and cond: "psize s > 0 \<or> (qsize s > 0 \<and> q_ptr s \<noteq> None)"
    and J1: "J (dat (mem s1)) (ctx s1)"
    and ext1: "ext_on A FX LE ?d ?r (dat (mem s1)) (ctx s1)"
    and hd1: "P \<noteq> [] \<longrightarrow> Q \<noteq> []
            \<longrightarrow> FX (dat (mem s1)) (ctx s1) (hd P) \<and> FX (dat (mem s1)) (ctx s1) (hd Q)"
    and eq: "\<forall>d' res'. ext_on A FX LE (dat (mem s1)) (ctx s1) d' res'
            \<longrightarrow> out1 @ merge_runs (LE d' res') P1 Q1 = out @ merge_runs (LE d' res') P Q"
    by blast
  from fr1 cmp have cmp1: "cmp_on cmp (info (mem s1)) A J FX LE"
    by (simp add: links_frame_def)
  from Suc.hyps(1) [OF n inv1 cmp1 J1 sub1]
  obtain s' where s': "merge_loop cmp s1 = Some s'"
    and m': "merged_inv (nxt (mem s')) (list_ptr s') (tail_ptr s')
               (out1 @ merge_runs (LE (dat (mem s')) (ctx s')) P1 Q1)"
    and ch': "chain (nxt (mem s')) (q_ptr s') R None"
    and fr': "links_frame s1 s' (set (out1 @ P1 @ Q1))"
    and J': "J (dat (mem s')) (ctx s')"
    and ext': "ext_on A FX LE (dat (mem s1)) (ctx s1) (dat (mem s')) (ctx s')"
    by blast
  have run: "merge_loop cmp s = Some s'"
    using cond s1 s' by (subst merge_loop.simps) simp
  have fr: "links_frame s s' (set (out @ P @ Q))"
    using links_frame_trans [OF fr1 fr', of "set (out @ P @ Q)"] sets by auto
  have ext: "ext_on A FX LE ?d ?r (dat (mem s')) (ctx s')"
    using ext1 ext' by (rule ext_on_trans)
  have m: "merged_inv (nxt (mem s')) (list_ptr s') (tail_ptr s')
               (out @ merge_runs (LE (dat (mem s')) (ctx s')) P Q)"
    using m' eq ext' by simp
  have hd: "P \<noteq> [] \<longrightarrow> Q \<noteq> []
            \<longrightarrow> FX (dat (mem s')) (ctx s') (hd P) \<and> FX (dat (mem s')) (ctx s') (hd Q)"
  proof (intro impI)
    assume ne: "P \<noteq> []" "Q \<noteq> []"
    then have "hd P \<in> A" "hd Q \<in> A" using sub by auto
    then show "FX (dat (mem s')) (ctx s') (hd P) \<and> FX (dat (mem s')) (ctx s') (hd Q)"
      using hd1 ne ext_on_fx [OF ext'] by blast
  qed
  show ?case using run m ch' fr J' ext hd by blast
qed

subsection \<open>One pass over the list\<close>

text \<open>
  A pass merges the runs of length \<open>k\<close> pairwise.  Its result is \<open>pass_runs\<close> in the
  order of the state it ends in, and stays so in every later state.
\<close>

lemma pass_loop_general:
  assumes "merged_inv (nxt (mem s)) (list_ptr s) (tail_ptr s) out"
    and "chain (nxt (mem s)) (p_ptr s) rest None"
    and "distinct (out @ rest)"
    and "insize s = int k" and "0 < k"
    and "nmerges s + int (length rest) \<le> s32_max"
    and "cmp_on cmp (info (mem s)) A J FX LE" and "J (dat (mem s)) (ctx s)"
    and "set rest \<subseteq> A"
    and "runs_all (run_ok (FX (dat (mem s)) (ctx s)) (LE (dat (mem s)) (ctx s))) k rest"
  shows "\<exists>s'. pass_loop cmp s = Some s'
           \<and> merged_inv (nxt (mem s')) (list_ptr s') (tail_ptr s')
               (out @ pass_runs (LE (dat (mem s')) (ctx s')) k rest)
           \<and> nmerges s' = nmerges s + int (pass_count k rest)
           \<and> info (mem s') = info (mem s) \<and> insize s' = insize s
           \<and> (\<forall>a. a \<notin> set (out @ rest) \<longrightarrow> nxt (mem s') a = nxt (mem s) a)
           \<and> J (dat (mem s')) (ctx s')
           \<and> ext_on A FX LE (dat (mem s)) (ctx s) (dat (mem s')) (ctx s')
           \<and> runs_all (run_ok (FX (dat (mem s')) (ctx s')) (LE (dat (mem s')) (ctx s'))) (2 * k)
               (pass_runs (LE (dat (mem s')) (ctx s')) k rest)
           \<and> (\<forall>d2 res2. ext_on A FX LE (dat (mem s')) (ctx s') d2 res2
                \<longrightarrow> pass_runs (LE d2 res2) k rest
                      = pass_runs (LE (dat (mem s')) (ctx s')) k rest)"
  using assms
proof (induction "length rest" arbitrary: s out rest rule: less_induct)
  case less
  note m = less.prems(1) and ch = less.prems(2) and d = less.prems(3)
    and ins = less.prems(4) and k = less.prems(5) and nm = less.prems(6)
    and cmp = less.prems(7) and J = less.prems(8) and sub = less.prems(9)
    and ra = less.prems(10)
  let ?d = "dat (mem s)" and ?r = "ctx s"
  show ?case
  proof (cases rest)
    case Nil
    with ch have "p_ptr s = None" by simp
    then show ?thesis using Nil m J
      by (subst pass_loop.simps) (simp add: ext_on_refl)
  next
    case (Cons r rest')
    with ch have p: "p_ptr s = Some r" by simp
    have ne: "rest \<noteq> []" using Cons by simp
    let ?P = "take k rest" and ?Q = "take k (drop k rest)" and ?R = "drop (2 * k) rest"
    let ?s0 = "s\<lparr>nmerges := nmerges s + 1, q_ptr := p_ptr s, psize := 0, i_cnt := 0\<rparr>"
    define mm where "mm = min (nat (insize ?s0 - i_cnt ?s0)) (length rest)"
    have mm: "mm = min k (length rest)" using ins by (simp add: mm_def)
    from step_q_correct [of ?s0 rest mm] ch ne ins mm_def
    obtain qp ic where sq: "step_q ?s0 = Some (?s0\<lparr>psize := psize ?s0 + int mm, q_ptr := qp, i_cnt := ic\<rparr>)"
      and chq: "chain (nxt (mem s)) qp (drop mm rest) None"
      by auto
    let ?s1 = "?s0\<lparr>psize := psize ?s0 + int mm, q_ptr := qp, i_cnt := ic\<rparr>"
    let ?s1q = "?s1\<lparr>qsize := insize ?s1\<rparr>"
    have dr: "drop mm rest = drop k rest" using mm by (simp add: min_def)
    have QR: "?Q @ ?R = drop k rest" by (simp add: mult_2 flip: drop_drop)
    have PQR: "?P @ ?Q @ ?R = rest" using QR by simp
    have lenP: "length ?P = mm" using mm by (simp add: min_def)
    have Pne: "?P \<noteq> []" using ne k by (cases rest) simp_all
    from ch have "chain (nxt (mem s)) (p_ptr s) (?P @ drop k rest) None" by simp
    then have chp: "\<exists>pe. chain (nxt (mem s)) (p_ptr s) ?P pe"
      unfolding chain_append by blast
    have qsz: "int (length ?Q) = int k \<or> (int (length ?Q) < int k \<and> ?R = [])"
      by (auto simp: min_def)
    have inv1: "merge_inv ?s1q out ?P ?Q ?R"
      unfolding merge_inv_def using m chp chq dr QR PQR lenP qsz d ins
      by (simp del: append_take_drop_id)
    have cmp1: "cmp_on cmp (info (mem ?s1q)) A J FX LE" using cmp by simp
    have J1: "J (dat (mem ?s1q)) (ctx ?s1q)" using J by simp
    have subP: "set ?P \<subseteq> A" using sub by (meson in_set_takeD subset_iff)
    have subQ: "set ?Q \<subseteq> A" using sub by (meson in_set_dropD in_set_takeD subset_iff)
    have subPQ: "set ?P \<union> set ?Q \<subseteq> A" using subP subQ by simp
    from merge_loop_general [OF inv1 cmp1 J1 subPQ]
    obtain s2 where ml: "merge_loop cmp ?s1q = Some s2"
      and m2: "merged_inv (nxt (mem s2)) (list_ptr s2) (tail_ptr s2)
                 (out @ merge_runs (LE (dat (mem s2)) (ctx s2)) ?P ?Q)"
      and ch2: "chain (nxt (mem s2)) (q_ptr s2) ?R None"
      and fr2: "links_frame ?s1q s2 (set (out @ ?P @ ?Q))"
      and J2: "J (dat (mem s2)) (ctx s2)"
      and ext2: "ext_on A FX LE ?d ?r (dat (mem s2)) (ctx s2)"
      and hd2: "?P \<noteq> [] \<longrightarrow> ?Q \<noteq> []
                \<longrightarrow> FX (dat (mem s2)) (ctx s2) (hd ?P) \<and> FX (dat (mem s2)) (ctx s2) (hd ?Q)"
      by auto
    let ?d2 = "dat (mem s2)" and ?r2 = "ctx s2"
    let ?s3 = "s2\<lparr>p_ptr := q_ptr s2\<rparr>"
    let ?M2 = "merge_runs (LE ?d2 ?r2) ?P ?Q"
    let ?out3 = "out @ ?M2"
    have lenR: "length ?R < length rest" using ne k by (cases rest) simp_all
    have d_all: "distinct (out @ ?P @ ?Q @ ?R)" using d PQR by simp
    have d3: "distinct (?out3 @ ?R)"
      using d_all by (auto simp: distinct_merge_runs set_merge_runs)
    have fr2': "info (mem s2) = info (mem s)" "insize s2 = insize s" "nmerges s2 = nmerges s + 1"
      "\<And>a. a \<notin> set (out @ ?P @ ?Q) \<Longrightarrow> nxt (mem s2) a = nxt (mem s) a"
      using fr2 by (simp_all add: links_frame_def)
    have nm3: "nmerges ?s3 + int (length ?R) \<le> s32_max"
      using nm lenR fr2'(3) by simp
    have cmp3: "cmp_on cmp (info (mem ?s3)) A J FX LE" using cmp fr2' by simp
    have J3: "J (dat (mem ?s3)) (ctx ?s3)" using J2 by simp
    have subR: "set ?R \<subseteq> A" using sub by (meson in_set_dropD subset_iff)
    have okP: "run_ok (FX ?d ?r) (LE ?d ?r) ?P" using k ne ra by (rule runs_all_take)
    have raD: "runs_all (run_ok (FX ?d ?r) (LE ?d ?r)) k (drop k rest)"
      using k ra by (rule runs_all_drop)
    have okQ: "?Q \<noteq> [] \<Longrightarrow> run_ok (FX ?d ?r) (LE ?d ?r) ?Q"
    proof -
      assume "?Q \<noteq> []"
      then have dne: "drop k rest \<noteq> []" by auto
      show ?thesis using k dne raD by (rule runs_all_take)
    qed
    have raR: "runs_all (run_ok (FX ?d ?r) (LE ?d ?r)) k ?R"
      using runs_all_drop [OF k raD] by (simp add: mult_2)
    have raR3: "runs_all (run_ok (FX (dat (mem ?s3)) (ctx ?s3)) (LE (dat (mem ?s3)) (ctx ?s3))) k ?R"
    proof (rule runs_all_mono [OF raR])
      fix X assume "set X \<subseteq> set ?R" "run_ok (FX ?d ?r) (LE ?d ?r) X"
      then show "run_ok (FX (dat (mem ?s3)) (ctx ?s3)) (LE (dat (mem ?s3)) (ctx ?s3)) X"
        using run_ok_ext [OF ext2, of X] subR by simp
    qed
    have ch3: "chain (nxt (mem ?s3)) (p_ptr ?s3) ?R None" using ch2 by simp
    have m3: "merged_inv (nxt (mem ?s3)) (list_ptr ?s3) (tail_ptr ?s3) ?out3" using m2 by simp
    have ins3: "insize ?s3 = int k" using ins fr2'(2) by simp
    from less.hyps [OF lenR m3 ch3 d3 ins3 k nm3 cmp3 J3 subR raR3]
    obtain s' where pl: "pass_loop cmp ?s3 = Some s'"
      and m': "merged_inv (nxt (mem s')) (list_ptr s') (tail_ptr s')
                 (?out3 @ pass_runs (LE (dat (mem s')) (ctx s')) k ?R)"
      and nm': "nmerges s' = nmerges ?s3 + int (pass_count k ?R)"
      and fr': "info (mem s') = info (mem ?s3)" "insize s' = insize ?s3"
        "\<forall>a. a \<notin> set (?out3 @ ?R) \<longrightarrow> nxt (mem s') a = nxt (mem ?s3) a"
      and J': "J (dat (mem s')) (ctx s')"
      and ext3: "ext_on A FX LE ?d2 ?r2 (dat (mem s')) (ctx s')"
      and ra': "runs_all (run_ok (FX (dat (mem s')) (ctx s')) (LE (dat (mem s')) (ctx s'))) (2 * k)
                 (pass_runs (LE (dat (mem s')) (ctx s')) k ?R)"
      and rob': "\<forall>d2 res2. ext_on A FX LE (dat (mem s')) (ctx s') d2 res2
                \<longrightarrow> pass_runs (LE d2 res2) k ?R = pass_runs (LE (dat (mem s')) (ctx s')) k ?R"
      by auto
    let ?d' = "dat (mem s')" and ?r' = "ctx s'"
    have ext': "ext_on A FX LE ?d ?r ?d' ?r'" using ext2 ext3 by (rule ext_on_trans)
    have fixed2: "\<forall>a\<in>set ?P \<union> set ?Q. FX ?d2 ?r2 a" if Qne: "?Q \<noteq> []"
    proof -
      have okP2: "run_ok (FX ?d2 ?r2) (LE ?d2 ?r2) ?P"
        using run_ok_ext [OF ext2 subP okP] .
      have okQ2: "run_ok (FX ?d2 ?r2) (LE ?d2 ?r2) ?Q"
        using run_ok_ext [OF ext2 subQ okQ [OF Qne]] .
      have hP: "FX ?d2 ?r2 (hd ?P)" and hQ: "FX ?d2 ?r2 (hd ?Q)" using hd2 Pne Qne by simp_all
      have fxP: "\<forall>a\<in>set ?P. FX ?d2 ?r2 a"
      proof (cases "length ?P \<le> 1")
        case True
        with Pne have "?P = [hd ?P]" by (cases ?P) simp_all
        then have "set ?P = {hd ?P}" by (metis list.simps(15) empty_set)
        with hP show ?thesis by simp
      next
        case False
        with okP2 show ?thesis by (simp add: run_ok_def)
      qed
      have fxQ: "\<forall>a\<in>set ?Q. FX ?d2 ?r2 a"
      proof (cases "length ?Q \<le> 1")
        case True
        with Qne have "?Q = [hd ?Q]" by (cases ?Q) simp_all
        then have "set ?Q = {hd ?Q}" by (metis list.simps(15) empty_set)
        with hQ show ?thesis by simp
      next
        case False
        with okQ2 show ?thesis by (simp add: run_ok_def)
      qed
      from fxP fxQ show ?thesis by blast
    qed
    have stableM: "merge_runs (LE d3 res3) ?P ?Q = ?M2"
      if e: "ext_on A FX LE ?d2 ?r2 d3 res3" for d3 res3
    proof (cases "?Q = []")
      case True
      show ?thesis by (simp only: True merge_runs_Nil2)
    next
      case False
      show ?thesis
      proof (rule merge_runs_cong)
        fix a b assume ab: "a \<in> set ?P" "b \<in> set ?Q"
        then have "a \<in> A" "b \<in> A" using subP subQ by auto
        moreover have "FX ?d2 ?r2 a" "FX ?d2 ?r2 b" using fixed2 [OF False] ab by simp_all
        ultimately show "LE d3 res3 a b = LE ?d2 ?r2 a b" using ext_on_le [OF e] by simp
      qed
    qed
    have M': "merge_runs (LE ?d' ?r') ?P ?Q = ?M2" using stableM [OF ext3] .
    have nm1: "\<not> nmerges s + 1 > s32_max" using nm ne by (cases rest) simp_all
    have run: "pass_loop cmp s = Some s'"
      using p nm1 sq ml pl by (subst pass_loop.simps) simp
    have pr: "pass_runs le k rest = merge_runs le ?P ?Q @ pass_runs le k ?R" for le
      using ne k by (subst pass_runs.simps) simp
    have pc: "pass_count k rest = Suc (pass_count k ?R)"
      using ne k by (subst pass_count.simps) simp
    have pr': "pass_runs (LE ?d' ?r') k rest = ?M2 @ pass_runs (LE ?d' ?r') k ?R"
      using pr [of "LE ?d' ?r'"] M' by simp
    have frame: "\<forall>a. a \<notin> set (out @ rest) \<longrightarrow> nxt (mem s') a = nxt (mem s) a"
    proof (intro allI impI)
      fix a assume a: "a \<notin> set (out @ rest)"
      have "set (?out3 @ ?R) = set (out @ rest)"
        using PQR by (metis append.assoc set_append set_merge_runs)
      moreover have "set (out @ ?P @ ?Q) \<subseteq> set (out @ rest)"
        using PQR by (metis append.assoc set_append Un_upper1)
      ultimately show "nxt (mem s') a = nxt (mem s) a"
        using a fr'(3) fr2'(4) [of a] by auto
    qed
    have okM: "run_ok (FX ?d' ?r') (LE ?d' ?r') ?M2"
    proof -
      have okP': "run_ok (FX ?d' ?r') (LE ?d' ?r') ?P"
        using run_ok_ext [OF ext' subP okP] .
      show ?thesis
      proof (cases "?Q = []")
        case True
        show ?thesis using okP' by (simp only: True merge_runs_Nil2)
      next
        case False
        have okQ': "run_ok (FX ?d' ?r') (LE ?d' ?r') ?Q"
          using run_ok_ext [OF ext' subQ okQ [OF False]] .
        have tp: "total_preorder (LE ?d' ?r')" using cmp J' by (simp add: cmp_on_def)
        have "sorted_wrt (LE ?d' ?r') (merge_runs (LE ?d' ?r') ?P ?Q)"
          using tp okP' okQ' by (intro sorted_merge_runs) (simp_all add: run_ok_def)
        then have so: "sorted_wrt (LE ?d' ?r') ?M2" using M' by simp
        have "\<forall>a\<in>set ?M2. FX ?d' ?r' a"
        proof
          fix a assume "a \<in> set ?M2"
          then have a: "a \<in> set ?P \<union> set ?Q" by (simp add: set_merge_runs)
          then have "a \<in> A" using subPQ by blast
          moreover have "FX ?d2 ?r2 a" using fixed2 [OF False] a by blast
          ultimately show "FX ?d' ?r' a" using ext_on_fx [OF ext3] by blast
        qed
        with so show ?thesis by (simp add: run_ok_def)
      qed
    qed
    have lenM: "length ?M2 = min (2 * k) (length rest)"
      by (simp add: length_merge_runs)
    have Mne: "?M2 \<noteq> []" using Pne by (auto simp: length_merge_runs dest!: arg_cong [where f = length])
    have Mlen: "length ?M2 = 2 * k \<or> (length ?M2 \<le> 2 * k \<and> pass_runs (LE ?d' ?r') k ?R = [])"
    proof (cases "2 * k \<le> length rest")
      case True
      then show ?thesis using lenM by simp
    next
      case False
      then have "?R = []" by simp
      then show ?thesis using lenM by simp
    qed
    have k2: "0 < 2 * k" using k by simp
    have ra2: "runs_all (run_ok (FX ?d' ?r') (LE ?d' ?r')) (2 * k)
                 (pass_runs (LE ?d' ?r') k rest)"
      unfolding pr' using okM Mne k2 Mlen ra' by (rule runs_all_first)
    have rob: "\<forall>d3 res3. ext_on A FX LE ?d' ?r' d3 res3
                \<longrightarrow> pass_runs (LE d3 res3) k rest = pass_runs (LE ?d' ?r') k rest"
    proof (intro allI impI)
      fix d3 res3 assume e: "ext_on A FX LE ?d' ?r' d3 res3"
      have e2: "ext_on A FX LE ?d2 ?r2 d3 res3" using ext3 e by (rule ext_on_trans)
      have "pass_runs (LE d3 res3) k rest
              = merge_runs (LE d3 res3) ?P ?Q @ pass_runs (LE d3 res3) k ?R"
        by (rule pr)
      also have "\<dots> = ?M2 @ pass_runs (LE ?d' ?r') k ?R"
        using stableM [OF e2] rob' e by simp
      finally show "pass_runs (LE d3 res3) k rest = pass_runs (LE ?d' ?r') k rest"
        using pr' by simp
    qed
    have m'': "merged_inv (nxt (mem s')) (list_ptr s') (tail_ptr s')
                 (out @ pass_runs (LE ?d' ?r') k rest)"
      using m' pr' by simp
    have nm'': "nmerges s' = nmerges s + int (pass_count k rest)"
      using nm' fr2'(3) pc by simp
    have inf'': "info (mem s') = info (mem s)" "insize s' = insize s"
      using fr' fr2' by simp_all
    show ?thesis
      using run m'' nm'' inf'' frame J' ext' ra2 rob by blast
  qed
qed

subsection \<open>The passes of the sort\<close>

lemma runs_all_ext:
  assumes "runs_all (run_ok (FX d res) (LE d res)) k xs"
    and "ext_on A FX LE d res d' res'" and "set xs \<subseteq> A"
  shows "runs_all (run_ok (FX d' res') (LE d' res')) k xs"
proof (rule runs_all_mono [OF assms(1)])
  fix X assume "set X \<subseteq> set xs" "run_ok (FX d res) (LE d res) X"
  then show "run_ok (FX d' res') (LE d' res') X"
    using run_ok_ext [OF assms(2), of X] assms(3) by simp
qed

lemma sort_loop_general:
  assumes "chain (nxt (mem s)) (list_ptr s) xs None" and "distinct xs" and "xs \<noteq> []"
    and "insize s = int k" and "0 < k"
    and "runs_all (run_ok (FX (dat (mem s)) (ctx s)) (LE (dat (mem s)) (ctx s))) k xs"
    and "int (length xs) \<le> s32_max"
    and "cmp_on cmp (info (mem s)) (set xs) J FX LE" and "J (dat (mem s)) (ctx s)"
  shows "\<exists>s' ys. sort_loop cmp s = Some s'
           \<and> chain (nxt (mem s')) (list_ptr s') ys None
           \<and> mset ys = mset xs \<and> sorted_wrt (LE (dat (mem s')) (ctx s')) ys
           \<and> (\<forall>z. filter (equiv_to (LE (dat (mem s')) (ctx s')) z) ys
                  = filter (equiv_to (LE (dat (mem s')) (ctx s')) z) xs)
           \<and> info (mem s') = info (mem s)
           \<and> J (dat (mem s')) (ctx s')
           \<and> ext_on (set xs) FX LE (dat (mem s)) (ctx s) (dat (mem s')) (ctx s')
           \<and> (\<forall>a. a \<notin> set xs \<longrightarrow> nxt (mem s') a = nxt (mem s) a)
           \<and> nmerges s' \<le> 1 \<and> (length xs \<le> 2 * k \<longrightarrow> nmerges s' = 1)
           \<and> (length xs \<le> 1 \<or> (\<forall>a\<in>set xs. FX (dat (mem s')) (ctx s') a))"
  using assms
proof (induction "length xs - k" arbitrary: s xs k rule: less_induct)
  case less
  note ch = less.prems(1) and d = less.prems(2) and ne = less.prems(3)
    and ins = less.prems(4) and k = less.prems(5) and ra = less.prems(6)
    and len = less.prems(7) and cmp = less.prems(8) and J = less.prems(9)
  let ?d = "dat (mem s)" and ?r = "ctx s"
  let ?s0 = "s\<lparr>p_ptr := list_ptr s, list_ptr := None, tail_ptr := None, nmerges := 0\<rparr>"
  have m0: "merged_inv (nxt (mem ?s0)) (list_ptr ?s0) (tail_ptr ?s0) []"
    by (simp add: merged_inv_def)
  have ch0: "chain (nxt (mem ?s0)) (p_ptr ?s0) xs None" using ch by simp
  have d0: "distinct ([] @ xs)" using d by simp
  have ins0: "insize ?s0 = int k" using ins by simp
  have nm0: "nmerges ?s0 + int (length xs) \<le> s32_max" using len by simp
  have cmp0: "cmp_on cmp (info (mem ?s0)) (set xs) J FX LE" using cmp by simp
  have J0: "J (dat (mem ?s0)) (ctx ?s0)" using J by simp
  have ra0: "runs_all (run_ok (FX (dat (mem ?s0)) (ctx ?s0)) (LE (dat (mem ?s0)) (ctx ?s0))) k xs"
    using ra by simp
  from pass_loop_general [OF m0 ch0 d0 ins0 k nm0 cmp0 J0 subset_refl ra0]
  obtain s1 where pl: "pass_loop cmp ?s0 = Some s1"
    and m1: "merged_inv (nxt (mem s1)) (list_ptr s1) (tail_ptr s1)
               ([] @ pass_runs (LE (dat (mem s1)) (ctx s1)) k xs)"
    and nm1: "nmerges s1 = nmerges ?s0 + int (pass_count k xs)"
    and fr1: "info (mem s1) = info (mem ?s0)" "insize s1 = insize ?s0"
      "\<forall>a. a \<notin> set ([] @ xs) \<longrightarrow> nxt (mem s1) a = nxt (mem ?s0) a"
    and J1: "J (dat (mem s1)) (ctx s1)"
    and ext1: "ext_on (set xs) FX LE (dat (mem ?s0)) (ctx ?s0) (dat (mem s1)) (ctx s1)"
    and ra1: "runs_all (run_ok (FX (dat (mem s1)) (ctx s1)) (LE (dat (mem s1)) (ctx s1))) (2 * k)
               (pass_runs (LE (dat (mem s1)) (ctx s1)) k xs)"
    and rob1: "\<forall>d2 res2. ext_on (set xs) FX LE (dat (mem s1)) (ctx s1) d2 res2
                \<longrightarrow> pass_runs (LE d2 res2) k xs = pass_runs (LE (dat (mem s1)) (ctx s1)) k xs"
    by blast
  let ?d1 = "dat (mem s1)" and ?r1 = "ctx s1"
  let ?ys = "pass_runs (LE ?d1 ?r1) k xs"
  have ext1': "ext_on (set xs) FX LE ?d ?r ?d1 ?r1" using ext1 by simp
  have ms: "mset ?ys = mset xs" using k by (rule mset_pass_runs)
  then have sets: "set ?ys = set xs" by (rule mset_eq_setD)
  have dys: "distinct ?ys" using ms d by (metis mset_eq_imp_distinct_iff)
  have yne: "?ys \<noteq> []" using ms ne by auto
  have m1': "merged_inv (nxt (mem s1)) (list_ptr s1) (tail_ptr s1) ?ys" using m1 by simp
  from merged_inv_close [OF m1' yne dys]
  obtain t where t: "tail_ptr s1 = Some t" and tl: "t = last ?ys"
    and ch1: "chain ((nxt (mem s1))(t := None)) (list_ptr s1) ?ys None"
    by blast
  have tin: "t \<in> set xs" using tl yne sets last_in_set by metis
  let ?s2 = "s1\<lparr>mem := (mem s1)\<lparr>nxt := (nxt (mem s1))(t := None)\<rparr>\<rparr>"
  have frame2: "\<forall>a. a \<notin> set xs \<longrightarrow> nxt (mem ?s2) a = nxt (mem s) a"
    using fr1(3) tin by auto
  have stable: "filter (equiv_to (LE d' res') z) (pass_runs (LE d' res') k xs)
                  = filter (equiv_to (LE d' res') z) xs"
    if e: "ext_on (set xs) FX LE ?d ?r d' res'" and j: "J d' res'" for d' res' z
  proof -
    have tp: "total_preorder (LE d' res')" using cmp j by (simp add: cmp_on_def)
    have "runs_all (run_ok (FX d' res') (LE d' res')) k xs"
      using ra e subset_refl by (rule runs_all_ext)
    then have "runs_sorted (LE d' res') k xs" by (rule runs_all_sorted)
    with tp k show ?thesis by (rule stable_pass_runs)
  qed
  show ?case
  proof (cases "length xs \<le> 2 * k")
    case True
    then have le1: "nmerges s1 \<le> 1" using nm1 pass_count_le_one [OF k, of xs] by simp
    have ge1: "pass_count k xs \<ge> 1" using ne k by (subst pass_count.simps) simp
    have run: "sort_loop cmp s = Some ?s2"
      using pl t le1 by (subst sort_loop.simps) simp
    have k2: "0 < 2 * k" using k by simp
    have leny: "length ?ys \<le> 2 * k" using True k by (simp add: length_pass_runs)
    have rok: "run_ok (FX ?d1 ?r1) (LE ?d1 ?r1) ?ys"
      using ra1 k2 leny yne by (rule runs_all_whole)
    then have so: "sorted_wrt (LE ?d1 ?r1) ?ys" by (simp add: run_ok_def)
    have fx: "length xs \<le> 1 \<or> (\<forall>a\<in>set xs. FX ?d1 ?r1 a)"
      using rok sets k by (simp add: run_ok_def length_pass_runs)
    have st: "\<forall>z. filter (equiv_to (LE ?d1 ?r1) z) ?ys = filter (equiv_to (LE ?d1 ?r1) z) xs"
      using stable [OF ext1' J1] by simp
    have nmv: "nmerges s1 = 1" using le1 ge1 nm1 by simp
    have "sort_loop cmp s = Some ?s2
           \<and> chain (nxt (mem ?s2)) (list_ptr ?s2) ?ys None
           \<and> mset ?ys = mset xs \<and> sorted_wrt (LE (dat (mem ?s2)) (ctx ?s2)) ?ys
           \<and> (\<forall>z. filter (equiv_to (LE (dat (mem ?s2)) (ctx ?s2)) z) ?ys
                  = filter (equiv_to (LE (dat (mem ?s2)) (ctx ?s2)) z) xs)
           \<and> info (mem ?s2) = info (mem s)
           \<and> J (dat (mem ?s2)) (ctx ?s2)
           \<and> ext_on (set xs) FX LE ?d ?r (dat (mem ?s2)) (ctx ?s2)
           \<and> (\<forall>a. a \<notin> set xs \<longrightarrow> nxt (mem ?s2) a = nxt (mem s) a)
           \<and> nmerges ?s2 \<le> 1 \<and> (length xs \<le> 2 * k \<longrightarrow> nmerges ?s2 = 1)
           \<and> (length xs \<le> 1 \<or> (\<forall>a\<in>set xs. FX (dat (mem ?s2)) (ctx ?s2) a))"
      using run ch1 ms so st fr1(1) J1 ext1' frame2 nmv fx by simp
    then show ?thesis by blast
  next
    case False
    then have gt1: "\<not> nmerges s1 \<le> 1" using nm1 pass_count_le_one [OF k, of xs] by simp
    have nov: "\<not> insize s1 * 2 > s32_max" using False len ins fr1(2) by simp
    let ?s3 = "s1\<lparr>mem := (mem s1)\<lparr>nxt := (nxt (mem s1))(t := None)\<rparr>, insize := insize s1 * 2\<rparr>"
    have meas: "length ?ys - 2 * k < length xs - k"
      using False k by (simp add: length_pass_runs)
    have cmp3: "cmp_on cmp (info (mem ?s3)) (set ?ys) J FX LE"
      using cmp fr1(1) sets by simp
    have J3: "J (dat (mem ?s3)) (ctx ?s3)" using J1 by simp
    have ra3: "runs_all (run_ok (FX (dat (mem ?s3)) (ctx ?s3)) (LE (dat (mem ?s3)) (ctx ?s3)))
                 (2 * k) ?ys"
      using ra1 by simp
    have len3: "int (length ?ys) \<le> s32_max" using len k by (simp add: length_pass_runs)
    have ins3: "insize ?s3 = int (2 * k)" using ins fr1(2) by simp
    have ch3: "chain (nxt (mem ?s3)) (list_ptr ?s3) ?ys None" using ch1 by simp
    have k2: "0 < 2 * k" using k by simp
    from less.hyps [OF meas ch3 dys yne ins3 k2 ra3 len3 cmp3 J3]
    obtain s' zs where sl: "sort_loop cmp ?s3 = Some s'"
      and chz: "chain (nxt (mem s')) (list_ptr s') zs None"
      and msz: "mset zs = mset ?ys" and sz: "sorted_wrt (LE (dat (mem s')) (ctx s')) zs"
      and stz: "\<forall>z. filter (equiv_to (LE (dat (mem s')) (ctx s')) z) zs
                  = filter (equiv_to (LE (dat (mem s')) (ctx s')) z) ?ys"
      and infz: "info (mem s') = info (mem ?s3)"
      and Jz: "J (dat (mem s')) (ctx s')"
      and extz: "ext_on (set ?ys) FX LE (dat (mem ?s3)) (ctx ?s3) (dat (mem s')) (ctx s')"
      and frz: "\<forall>a. a \<notin> set ?ys \<longrightarrow> nxt (mem s') a = nxt (mem ?s3) a"
      and nmz: "nmerges s' \<le> 1"
      and fxz: "length ?ys \<le> 1 \<or> (\<forall>a\<in>set ?ys. FX (dat (mem s')) (ctx s') a)"
      by blast
    let ?d' = "dat (mem s')" and ?r' = "ctx s'"
    have ext13: "ext_on (set xs) FX LE ?d1 ?r1 ?d' ?r'" using extz sets by simp
    have ext': "ext_on (set xs) FX LE ?d ?r ?d' ?r'" using ext1' ext13 by (rule ext_on_trans)
    have ys': "pass_runs (LE ?d' ?r') k xs = ?ys" using rob1 ext13 by simp
    have run: "sort_loop cmp s = Some s'"
      using pl t gt1 nov sl by (subst sort_loop.simps) simp
    have frame: "\<forall>a. a \<notin> set xs \<longrightarrow> nxt (mem s') a = nxt (mem s) a"
      using frz sets frame2 by simp
    have st: "\<forall>z. filter (equiv_to (LE ?d' ?r') z) zs = filter (equiv_to (LE ?d' ?r') z) xs"
      using stz stable [OF ext' Jz] ys' by simp
    have fx: "length xs \<le> 1 \<or> (\<forall>a\<in>set xs. FX ?d' ?r' a)"
      using fxz sets k by (simp add: length_pass_runs)
    have "sort_loop cmp s = Some s'
           \<and> chain (nxt (mem s')) (list_ptr s') zs None
           \<and> mset zs = mset xs \<and> sorted_wrt (LE ?d' ?r') zs
           \<and> (\<forall>z. filter (equiv_to (LE ?d' ?r') z) zs = filter (equiv_to (LE ?d' ?r') z) xs)
           \<and> info (mem s') = info (mem s)
           \<and> J ?d' ?r'
           \<and> ext_on (set xs) FX LE ?d ?r ?d' ?r'
           \<and> (\<forall>a. a \<notin> set xs \<longrightarrow> nxt (mem s') a = nxt (mem s) a)
           \<and> nmerges s' \<le> 1 \<and> (length xs \<le> 2 * k \<longrightarrow> nmerges s' = 1)
           \<and> (length xs \<le> 1 \<or> (\<forall>a\<in>set xs. FX ?d' ?r' a))"
      using run chz msz ms sz st infz fr1(1) Jz ext' frame nmz False fx by simp
    then show ?thesis by blast
  qed
qed

lemma mergesort_general:
  assumes "is_list h list xs" and "xs \<noteq> []" and "int (length xs) \<le> s32_max"
    and "cmp_on cmp (info h) (set xs) J FX LE" and "J (dat h) res"
  shows "\<exists>l' h' res' ys. core_list_mergesort h list cmp res = Some (l', h', res')
           \<and> is_list h' l' ys \<and> mset ys = mset xs
           \<and> sorted_wrt (LE (dat h') res') ys
           \<and> (\<forall>z. filter (equiv_to (LE (dat h') res') z) ys
                  = filter (equiv_to (LE (dat h') res') z) xs)
           \<and> info h' = info h \<and> J (dat h') res'
           \<and> ext_on (set xs) FX LE (dat h) res (dat h') res'
           \<and> (\<forall>a. a \<notin> set xs \<longrightarrow> nxt h' a = nxt h a)
           \<and> (length xs \<le> 1 \<or> (\<forall>a\<in>set xs. FX (dat h') res' a))"
proof -
  let ?s = "sort_entry h list res"
  from assms(1) have ch: "chain (nxt (mem ?s)) (list_ptr ?s) xs None" and d: "distinct xs"
    by (simp_all add: is_list_def sort_entry_def)
  have ins: "insize ?s = int (Suc 0)" by (simp add: sort_entry_def)
  have cmp: "cmp_on cmp (info (mem ?s)) (set xs) J FX LE"
    using assms(4) by (simp add: sort_entry_def)
  have J: "J (dat (mem ?s)) (ctx ?s)" using assms(5) by (simp add: sort_entry_def)
  have ra: "runs_all (run_ok (FX (dat (mem ?s)) (ctx ?s)) (LE (dat (mem ?s)) (ctx ?s))) (Suc 0) xs"
    by (rule runs_all_one) (simp add: run_ok_def)
  from sort_loop_general [OF ch d assms(2) ins _ ra assms(3) cmp J]
  obtain s' ys where sl: "sort_loop cmp ?s = Some s'"
    and chy: "chain (nxt (mem s')) (list_ptr s') ys None"
    and ms: "mset ys = mset xs" and so: "sorted_wrt (LE (dat (mem s')) (ctx s')) ys"
    and st: "\<forall>z. filter (equiv_to (LE (dat (mem s')) (ctx s')) z) ys
                  = filter (equiv_to (LE (dat (mem s')) (ctx s')) z) xs"
    and fr: "info (mem s') = info (mem ?s)" "J (dat (mem s')) (ctx s')"
      "ext_on (set xs) FX LE (dat (mem ?s)) (ctx ?s) (dat (mem s')) (ctx s')"
      "\<forall>a. a \<notin> set xs \<longrightarrow> nxt (mem s') a = nxt (mem ?s) a"
      "length xs \<le> 1 \<or> (\<forall>a\<in>set xs. FX (dat (mem s')) (ctx s') a)"
    by blast
  have dy: "distinct ys" using ms d by (metis mset_eq_imp_distinct_iff)
  have run: "core_list_mergesort h list cmp res = Some (list_ptr s', mem s', ctx s')"
    using sl by (simp add: core_list_mergesort_def)
  have il: "is_list (mem s') (list_ptr s') ys" using chy dy by (simp add: is_list_def)
  have "core_list_mergesort h list cmp res = Some (list_ptr s', mem s', ctx s')
           \<and> is_list (mem s') (list_ptr s') ys \<and> mset ys = mset xs
           \<and> sorted_wrt (LE (dat (mem s')) (ctx s')) ys
           \<and> (\<forall>z. filter (equiv_to (LE (dat (mem s')) (ctx s')) z) ys
                  = filter (equiv_to (LE (dat (mem s')) (ctx s')) z) xs)
           \<and> info (mem s') = info h \<and> J (dat (mem s')) (ctx s')
           \<and> ext_on (set xs) FX LE (dat h) res (dat (mem s')) (ctx s')
           \<and> (\<forall>a. a \<notin> set xs \<longrightarrow> nxt (mem s') a = nxt h a)
           \<and> (length xs \<le> 1 \<or> (\<forall>a\<in>set xs. FX (dat (mem s')) (ctx s') a))"
    using run il ms so st fr by (simp add: sort_entry_def)
  then show ?thesis by blast
qed

text \<open>
  The comparators that write nothing are a special case: the state never changes, every
  cell is settled and the order is fixed.
\<close>

lemma mergesort_correct:
  assumes "is_list h list xs" and "xs \<noteq> []" and "int (length xs) \<le> s32_max"
    and "pure_on cmp (info h) (dat h) res (set xs) le"
    and "total_preorder le"
  shows "\<exists>l' h' ys. core_list_mergesort h list cmp res = Some (l', h', res)
           \<and> is_list h' l' ys \<and> mset ys = mset xs \<and> sorted_wrt le ys
           \<and> (\<forall>z. filter (equiv_to le z) ys = filter (equiv_to le z) xs)
           \<and> info h' = info h \<and> dat h' = dat h
           \<and> (\<forall>a. a \<notin> set xs \<longrightarrow> nxt h' a = nxt h a)"
proof -
  define J where "J = (\<lambda>d' res'. d' = dat h \<and> res' = res)"
  define FX where "FX = (\<lambda>(d' :: nat \<Rightarrow> list_data) (res' :: 'a) (a :: nat). True)"
  define LE where "LE = (\<lambda>(d' :: nat \<Rightarrow> list_data) (res' :: 'a). le)"
  have cmp: "cmp_on cmp (info h) (set xs) J FX LE"
    unfolding cmp_on_def
  proof (intro conjI allI impI ballI)
    fix d' res' assume "J d' res'"
    show "total_preorder (LE d' res')" using assms(5) by (simp add: LE_def)
  next
    fix d' res' a b assume j: "J d' res'" and ab: "a \<in> set xs" "b \<in> set xs"
    from assms(4) ab obtain c where
      "cmp (info h a) (info h b) res (dat h) = (c, dat h, res)" "(sint c \<le> 0) = le a b"
      unfolding pure_on_def by blast
    then show "\<exists>c d2 res2. cmp (info h a) (info h b) res' d' = (c, d2, res2)
              \<and> J d2 res2 \<and> FX d2 res2 a \<and> FX d2 res2 b
              \<and> (sint c \<le> 0) = LE d2 res2 a b
              \<and> ext_on (set xs) FX LE d' res' d2 res2"
      using j by (intro exI [of _ c] exI [of _ "dat h"] exI [of _ res])
        (simp add: J_def FX_def LE_def ext_on_def)
  qed
  have J0: "J (dat h) res" by (simp add: J_def)
  from mergesort_general [OF assms(1-3) cmp J0]
  show ?thesis by (auto simp: J_def LE_def)
qed

section \<open>Correctness of the merge sort\<close>

text \<open>A comparator that reads its two records and writes nothing.\<close>

definition pure_cmp :: "(list_data \<Rightarrow> list_data \<Rightarrow> ee_s32) \<Rightarrow> 'r list_cmp" where
  "pure_cmp f a b res d = (f (d a) (d b), d, res)"

text \<open>
  \<open>ordering_cmp cmp R settled le\<close>: the comparator \<open>cmp\<close> orders the records \<open>R\<close>.
  Whatever the records \<open>d\<close> hold and whatever the context \<open>res\<close>, \<open>le d res\<close> is a
  total preorder; a call on two records of \<open>R\<close> returns a value that is not positive
  exactly when the first is not after the second in the order after the call; both
  records are settled after the call, a settled record of \<open>R\<close> stays settled, and the
  order between two settled records of \<open>R\<close> is the same before and after the call.
\<close>

definition ordering_cmp ::
  "'r list_cmp \<Rightarrow> nat set \<Rightarrow> ((nat \<Rightarrow> list_data) \<Rightarrow> 'r \<Rightarrow> nat \<Rightarrow> bool)
     \<Rightarrow> ((nat \<Rightarrow> list_data) \<Rightarrow> 'r \<Rightarrow> nat \<Rightarrow> nat \<Rightarrow> bool) \<Rightarrow> bool" where
  "ordering_cmp cmp R settled le =
     ((\<forall>d res. total_preorder (le d res))
      \<and> (\<forall>d res c d' res'. \<forall>x\<in>R. \<forall>y\<in>R.
            cmp x y res d = (c, d', res')
            \<longrightarrow> settled d' res' x \<and> settled d' res' y
                \<and> (sint c \<le> 0) = le d' res' x y
                \<and> (\<forall>r\<in>R. settled d res r \<longrightarrow> settled d' res' r)
                \<and> (\<forall>r\<in>R. \<forall>r'\<in>R. settled d res r \<longrightarrow> settled d res r'
                      \<longrightarrow> le d' res' r r' = le d res r r')))"

lemma ordering_cmp_on:
  assumes "ordering_cmp cmp (inf0 ` A) settled le"
  shows "cmp_on cmp inf0 A (\<lambda>d res. True) (\<lambda>d res a. settled d res (inf0 a))
           (\<lambda>d res a b. le d res (inf0 a) (inf0 b))"
  unfolding cmp_on_def
proof (intro conjI allI impI ballI)
  fix d res
  from assms have "total_preorder (le d res)" by (simp add: ordering_cmp_def)
  then show "total_preorder (\<lambda>a b. le d res (inf0 a) (inf0 b))"
    unfolding total_preorder_def by blast
next
  fix d res a b assume ab: "a \<in> A" "b \<in> A"
  obtain c d' res' where c: "cmp (inf0 a) (inf0 b) res d = (c, d', res')"
    by (cases "cmp (inf0 a) (inf0 b) res d") auto
  from assms have "\<forall>x\<in>inf0 ` A. \<forall>y\<in>inf0 ` A.
            cmp x y res d = (c, d', res')
            \<longrightarrow> settled d' res' x \<and> settled d' res' y
                \<and> (sint c \<le> 0) = le d' res' x y
                \<and> (\<forall>r\<in>inf0 ` A. settled d res r \<longrightarrow> settled d' res' r)
                \<and> (\<forall>r\<in>inf0 ` A. \<forall>r'\<in>inf0 ` A. settled d res r \<longrightarrow> settled d res r'
                      \<longrightarrow> le d' res' r r' = le d res r r')"
    unfolding ordering_cmp_def by blast
  with c ab have s: "settled d' res' (inf0 a)" "settled d' res' (inf0 b)"
    and le: "(sint c \<le> 0) = le d' res' (inf0 a) (inf0 b)"
    and keep: "\<forall>r\<in>inf0 ` A. settled d res r \<longrightarrow> settled d' res' r"
    and same: "\<forall>r\<in>inf0 ` A. \<forall>r'\<in>inf0 ` A. settled d res r \<longrightarrow> settled d res r'
                       \<longrightarrow> le d' res' r r' = le d res r r'"
    by simp_all
  have "ext_on A (\<lambda>d res a. settled d res (inf0 a)) (\<lambda>d res a b. le d res (inf0 a) (inf0 b))
          d res d' res'"
    unfolding ext_on_def using keep same by blast
  with c s le show "\<exists>c d' res'. cmp (inf0 a) (inf0 b) res d = (c, d', res')
              \<and> True \<and> settled d' res' (inf0 a) \<and> settled d' res' (inf0 b)
              \<and> (sint c \<le> 0) = le d' res' (inf0 a) (inf0 b)
              \<and> ext_on A (\<lambda>d res a. settled d res (inf0 a))
                  (\<lambda>d res a b. le d res (inf0 a) (inf0 b)) d res d' res'"
    by blast
qed

text \<open>
  The comparators that write nothing and compare by a total preorder, and \<open>cmp_idx\<close>,
  order every set of records.  \<open>cmp_idx\<close> may write \<open>data16\<close>; it compares the \<open>idx\<close>
  fields, which no call changes, and the difference of two 16-bit values does not
  overflow in 32 bits.
\<close>

lemma sint_idx_diff:
  fixes a b :: ee_s16
  shows "sint ((scast a :: ee_s32) - scast b) = sint a - sint b"
proof -
  have a: "- (2 ^ 15) \<le> sint a" "sint a < 2 ^ 15"
    using sint_ge [of a] sint_lt [of a] by simp_all
  have b: "- (2 ^ 15) \<le> sint b" "sint b < 2 ^ 15"
    using sint_ge [of b] sint_lt [of b] by simp_all
  have sa: "sint (scast a :: ee_s32) = sint a" by (simp add: sint_up_scast is_up)
  have sb: "sint (scast b :: ee_s32) = sint b" by (simp add: sint_up_scast is_up)
  have "sint ((scast a :: ee_s32) - scast b) = signed_take_bit 31 (sint a - sint b)"
    by (simp add: sint_word_ariths sa sb)
  also have "\<dots> = sint a - sint b"
    using a b by (intro signed_take_bit_int_eq_self) simp_all
  finally show ?thesis .
qed

lemma ordering_pure_cmp:
  fixes f :: "list_data \<Rightarrow> list_data \<Rightarrow> ee_s32"
  assumes "\<forall>x y. sint (f x y) \<le> 0 \<or> sint (f y x) \<le> 0"
    and "\<forall>x y z. sint (f x y) \<le> 0 \<longrightarrow> sint (f y z) \<le> 0 \<longrightarrow> sint (f x z) \<le> 0"
  shows "ordering_cmp (pure_cmp f) R (\<lambda>d res r. True) (\<lambda>d res x y. sint (f (d x) (d y)) \<le> 0)"
  unfolding ordering_cmp_def total_preorder_def pure_cmp_def
  using assms by auto

lemma cmp_idx_writes:
  "cmp_idx a b res d = (c, d', res')
     \<Longrightarrow> res' = res \<and> (\<forall>r. idx (d' r) = idx (d r))
         \<and> sint c = sint (idx (d a)) - sint (idx (d b))"
  by (auto simp: cmp_idx_def Let_def sint_idx_diff split: if_splits)

lemma ordering_cmp_idx:
  "ordering_cmp cmp_idx R (\<lambda>d res r. True)
     (\<lambda>d res x y. sint (idx (d x)) \<le> sint (idx (d y)))"
proof -
  have tp: "total_preorder (\<lambda>x y. sint (idx (d x)) \<le> sint (idx (d y)))"
    for d :: "nat \<Rightarrow> list_data"
    by (auto simp: total_preorder_def)
  have st: "(sint c \<le> 0) = (sint (idx (d' x)) \<le> sint (idx (d' y)))
            \<and> (\<forall>r r'. (sint (idx (d' r)) \<le> sint (idx (d' r')))
                      = (sint (idx (d r)) \<le> sint (idx (d r'))))"
    if c: "cmp_idx x y res d = (c, d', res')"
    for d d' :: "nat \<Rightarrow> list_data" and res res' :: "'a option" and c x y
    using cmp_idx_writes [OF c] by simp
  show ?thesis
    unfolding ordering_cmp_def using tp st by blast
qed

text \<open>
  \<open>cmp_complex\<close> orders every set of records as well.  \<open>calc_func\<close> caches its result
  in the low seven bits of \<open>data16\<close> and sets bit 7; a record with bit 7 set is settled:
  \<open>calc_func\<close> returns its low seven bits and writes nothing.
\<close>

lemma cache_bits:
  fixes data retval :: ee_s16
  defines "w \<equiv> (data AND 0xff00) OR 0x0080 OR (retval AND 0x007f)"
  shows "bit w 7" and "w AND 0x007f = retval AND 0x007f"
proof -
  have m7: "(0x007f :: ee_s16) = mask 7" by (simp add: mask_eq_exp_minus_1)
  have m8: "(0xff00 :: ee_s16) = push_bit 8 (mask 8)" by (simp add: mask_eq_exp_minus_1)
  have b7: "(0x0080 :: ee_s16) = 2 ^ 7" by simp
  have bit7: "bit ((2 :: ee_s16) ^ 7) n = (n = 7)" for n
    by (simp only: bit_exp_iff possible_bit_word) auto
  have bm7: "bit (mask 7 :: ee_s16) n = (n < 7)" for n
    by (auto simp: bit_mask_iff)
  have bm8: "bit (push_bit 8 (mask 8) :: ee_s16) n = (8 \<le> n \<and> n < 16)" for n
    by (auto simp: bit_push_bit_iff bit_mask_iff)
  show "bit w 7"
    unfolding w_def m7 m8 b7 by (simp only: bit_or_iff bit_and_iff bit7 bm7 bm8) simp
  show "w AND 0x007f = retval AND 0x007f"
    unfolding w_def m7 m8 b7
    by (rule bit_word_eqI) (simp only: bit_or_iff bit_and_iff bit7 bm7 bm8, auto)
qed

lemma calc_func_cache:
  assumes "calc_func m data res = (v, data', res')"
  shows "bit data' 7" and "data' AND 0x007f = v" and "bit data 7 \<Longrightarrow> data' = data"
proof -
  show "bit data 7 \<Longrightarrow> data' = data" using assms by (simp add: calc_func_def)
  show "bit data' 7"
  proof (cases "bit data 7")
    case True
    with assms show ?thesis by (simp add: calc_func_def)
  next
    case False
    with assms obtain retval :: ee_s16 where
      "data' = (data AND 0xff00) OR 0x0080 OR (retval AND 0x007f)"
      by (auto simp: calc_func_def Let_def split: prod.splits)
    then show ?thesis using cache_bits(1) by simp
  qed
  show "data' AND 0x007f = v"
  proof (cases "bit data 7")
    case True
    with assms show ?thesis by (auto simp: calc_func_def)
  next
    case False
    with assms obtain retval :: ee_s16 where
      "data' = (data AND 0xff00) OR 0x0080 OR (retval AND 0x007f)" "v = retval AND 0x007f"
      by (auto simp: calc_func_def Let_def split: prod.splits)
    then show ?thesis using cache_bits(2) by simp
  qed
qed

definition cached :: "(nat \<Rightarrow> list_data) \<Rightarrow> nat \<Rightarrow> bool" where
  "cached d r = bit (data16 (d r)) 7"

definition cache_le :: "(nat \<Rightarrow> list_data) \<Rightarrow> nat \<Rightarrow> nat \<Rightarrow> bool" where
  "cache_le d x y = (sint (data16 (d x) AND 0x007f) \<le> sint (data16 (d y) AND 0x007f))"

lemma cmp_complex_step:
  assumes "cmp_complex m x y res d = (c, d', res')"
  shows "cached d' x" and "cached d' y" and "(sint c \<le> 0) = cache_le d' x y"
    and "cached d r \<Longrightarrow> d' r = d r"
proof -
  obtain v1 da res1 where c1: "calc_func m (data16 (d x)) res = (v1, da, res1)"
    by (cases "calc_func m (data16 (d x)) res") auto
  let ?d1 = "d(x := (d x)\<lparr>data16 := da\<rparr>)"
  obtain v2 db res2 where c2: "calc_func m (data16 (?d1 y)) res1 = (v2, db, res2)"
    by (cases "calc_func m (data16 (?d1 y)) res1") auto
  let ?d2 = "?d1(y := (?d1 y)\<lparr>data16 := db\<rparr>)"
  from assms c1 c2 have d': "d' = ?d2" and c: "c = scast v1 - scast v2"
    by (simp_all add: cmp_complex_def Let_def)
  note f1 = calc_func_cache [OF c1] and f2 = calc_func_cache [OF c2]
  have y2: "data16 (?d2 y) = db" by simp
  have x2: "data16 (?d2 x) = (if x = y then db else da)" by simp
  have dbx: "db = da" if "x = y"
  proof -
    from that have "data16 (?d1 y) = da" by simp
    with f2(3) f1(1) show ?thesis by simp
  qed
  have x2': "data16 (?d2 x) = da" using x2 dbx by simp
  show "cached d' y" using f2(1) by (simp add: cached_def d')
  show "cached d' x" using f1(1) x2' by (simp only: cached_def d')
  have "sint c = sint v1 - sint v2" unfolding c by (rule sint_idx_diff)
  then show "(sint c \<le> 0) = cache_le d' x y"
    using f1(2) f2(2) x2' y2 by (simp only: cache_le_def d') simp
  show "d' r = d r" if r: "cached d r"
  proof -
    have a: "(d x)\<lparr>data16 := da\<rparr> = d x" if "r = x"
      using f1(3) r that by (simp add: cached_def)
    have b: "(?d1 y)\<lparr>data16 := db\<rparr> = ?d1 y" if "r = y"
    proof -
      have "bit (data16 (?d1 y)) 7"
        using r that f1(1) by (simp add: cached_def)
      with f2(3) show ?thesis by simp
    qed
    show ?thesis unfolding d' using a b by (cases "r = x"; cases "r = y"; simp)
  qed
qed

lemma ordering_cmp_complex:
  "ordering_cmp (cmp_complex m) R (\<lambda>d res. cached d) (\<lambda>d res. cache_le d)"
proof -
  have tp: "total_preorder (cache_le d)" for d
    by (auto simp: total_preorder_def cache_le_def)
  have st: "cached d' x \<and> cached d' y \<and> (sint c \<le> 0) = cache_le d' x y
            \<and> (\<forall>r. cached d r \<longrightarrow> cached d' r)
            \<and> (\<forall>r r'. cached d r \<longrightarrow> cached d r' \<longrightarrow> cache_le d' r r' = cache_le d r r')"
    if c: "cmp_complex m x y res d = (c, d', res')" for d d' res res' c x y
    using cmp_complex_step [OF c] by (simp add: cached_def cache_le_def)
  show ?thesis
    unfolding ordering_cmp_def using tp st by blast
qed

text \<open>
  The list without cells: the first pass merges nothing and leaves \<open>tail\<close> at \<open>NULL\<close>,
  and the assignment \<open>tail->next = NULL\<close>, which stands before the test of \<open>nmerges\<close>,
  dereferences it.
\<close>

lemma mergesort_empty: "core_list_mergesort h None cmp res = None"
  unfolding core_list_mergesort_def sort_entry_def
  by (subst sort_loop.simps, subst pass_loop.simps) simp

text \<open>
  C1.  For a list of fewer than \<open>2^31\<close> cells and a comparator that orders the records
  of the list: on a list of at least one cell \<open>core_list_mergesort\<close> returns.  The cells
  of the returned list are a permutation of the cells of the input and every cell owns
  the record it owned.  The list is in ascending order, in the order \<open>le\<close> of the state
  the sort ends in and for the comparator called on that state (its result is not
  positive for every cell and every later cell).  For every cell \<open>z\<close> the cells that
  compare equal to \<open>z\<close> are in the order they had in the input.  The comparator may
  write to the records: \<open>ordering_pure_cmp\<close>, \<open>ordering_cmp_idx\<close> and
  \<open>ordering_cmp_complex\<close> show that the comparators of the benchmark satisfy the
  hypothesis.  On the list without cells the function does not return.
\<close>

theorem core_list_mergesort_sorts:
  assumes "is_list h list xs" and "length xs < 2 ^ 31"
    and "ordering_cmp cmp (info h ` set xs) settled le"
  shows "if xs = [] then core_list_mergesort h list cmp res = None
         else \<exists>l' h' res' ys. core_list_mergesort h list cmp res = Some (l', h', res')
           \<and> is_list h' l' ys \<and> mset ys = mset xs \<and> info h' = info h
           \<and> sorted_wrt (\<lambda>a b. le (dat h') res' (info h a) (info h b)) ys
           \<and> (\<forall>z. filter (\<lambda>a. le (dat h') res' (info h z) (info h a)
                            \<and> le (dat h') res' (info h a) (info h z)) ys
                  = filter (\<lambda>a. le (dat h') res' (info h z) (info h a)
                            \<and> le (dat h') res' (info h a) (info h z)) xs)
           \<and> sorted_wrt (\<lambda>a b. sint (fst (cmp (info h a) (info h b) res' (dat h'))) \<le> 0) ys"
proof (cases "xs = []")
  case True
  with assms(1) have "list = None" by (simp add: is_list_def)
  with True show ?thesis by (simp add: mergesort_empty)
next
  case ne: False
  let ?LE = "\<lambda>d res a b. le d res (info h a) (info h b)"
  let ?FX = "\<lambda>d res a. settled d res (info h a)"
  have len: "int (length xs) \<le> s32_max" using assms(2) by (simp add: s32_max_def)
  have cmp: "cmp_on cmp (info h) (set xs) (\<lambda>d res. True) ?FX ?LE"
    using assms(3) by (rule ordering_cmp_on)
  from mergesort_general [OF assms(1) ne len cmp, of res]
  obtain l' h' res' ys where r: "core_list_mergesort h list cmp res = Some (l', h', res')"
    and l: "is_list h' l' ys" and ms: "mset ys = mset xs"
    and so: "sorted_wrt (?LE (dat h') res') ys"
    and st: "\<forall>z. filter (equiv_to (?LE (dat h') res') z) ys
                  = filter (equiv_to (?LE (dat h') res') z) xs"
    and fr: "info h' = info h"
    and fx: "length xs \<le> 1 \<or> (\<forall>a\<in>set xs. settled (dat h') res' (info h a))"
    by blast
  have sets: "set ys = set xs" using ms by (rule mset_eq_setD)
  have leny: "length ys = length xs" using ms by (rule mset_eq_length)
  have byc: "sorted_wrt (\<lambda>a b. sint (fst (cmp (info h a) (info h b) res' (dat h'))) \<le> 0) ys"
  proof (cases "length xs \<le> 1")
    case True
    then show ?thesis using leny by (intro sorted_wrt_short) simp
  next
    case False
    with fx have all: "\<forall>a\<in>set xs. settled (dat h') res' (info h a)" by simp
    have "sint (fst (cmp (info h a) (info h b) res' (dat h'))) \<le> 0"
      if ab: "a \<in> set ys" "b \<in> set ys" and le: "le (dat h') res' (info h a) (info h b)" for a b
    proof -
      obtain c d2 res2 where c: "cmp (info h a) (info h b) res' (dat h') = (c, d2, res2)"
        by (cases "cmp (info h a) (info h b) res' (dat h')") auto
      have ia: "info h a \<in> info h ` set xs" and ib: "info h b \<in> info h ` set xs"
        using ab sets by simp_all
      from assms(3) c ia ib
      have r: "(sint c \<le> 0) = le d2 res2 (info h a) (info h b)"
        and same: "\<forall>r\<in>info h ` set xs. \<forall>r'\<in>info h ` set xs.
                     settled (dat h') res' r \<longrightarrow> settled (dat h') res' r'
                     \<longrightarrow> le d2 res2 r r' = le (dat h') res' r r'"
        unfolding ordering_cmp_def by blast+
      have "le d2 res2 (info h a) (info h b) = le (dat h') res' (info h a) (info h b)"
        using same ia ib all ab sets by simp
      with r le c show ?thesis by simp
    qed
    with so show ?thesis by (rule sorted_wrt_mono_rel [rotated])
  qed
  have eq: "equiv_to (?LE (dat h') res') = (\<lambda>z a. le (dat h') res' (info h z) (info h a)
                            \<and> le (dat h') res' (info h a) (info h z))"
    by (simp add: equiv_to_def fun_eq_iff)
  show ?thesis
    using r l ms fr so st byc unfolding eq if_not_P [OF ne]
    by (intro exI [of _ l'] exI [of _ h'] exI [of _ res'] exI [of _ ys]) simp
qed

text \<open>
  Six cells \<open>0 \<rightarrow> 1 \<rightarrow> \<dots> \<rightarrow> 5\<close> with the \<open>idx\<close> values 3, 0, 2, 4, 1, 3 and records
  whose low byte is not a copy of the high byte, sorted by \<open>cmp_idx\<close> with the \<open>NULL\<close>
  context: the comparator rewrites the \<open>data16\<close> of every record it is called on.
\<close>

definition heap6w :: heap where
  "heap6w = \<lparr>nxt = (\<lambda>n. if n < 5 then Some (n + 1) else None), info = (\<lambda>n. n),
             dat = (\<lambda>n. \<lparr>data16 = of_nat (n + 1), idx = of_nat ((7 * n + 3) mod 5)\<rparr>)\<rparr>"

lemma cmp_idx_writes_heap6w:
  "data16 (fst (snd (cmp_idx 0 1 (None :: unit option) (dat heap6w))) 0) \<noteq> data16 (dat heap6w 0)"
  by (simp add: cmp_idx_def heap6w_def regen_data_def Let_def)

theorem core_list_mergesort_sorts_witness:
  "is_list heap6w (Some 0) [0, 1, 2, 3, 4, 5]
   \<and> ordering_cmp (cmp_idx :: unit option list_cmp) (info heap6w ` set [0, 1, 2, 3, 4, 5])
        (\<lambda>d res r. True) (\<lambda>d res x y. sint (idx (d x)) \<le> sint (idx (d y)))
   \<and> (\<exists>l' h' res' ys.
         core_list_mergesort heap6w (Some 0) cmp_idx (None :: unit option) = Some (l', h', res')
           \<and> is_list h' l' ys \<and> mset ys = mset [0, 1, 2, 3, 4, 5] \<and> info h' = info heap6w
           \<and> sorted_wrt (\<lambda>a b. sint (idx (dat h' (info heap6w a)))
                                  \<le> sint (idx (dat h' (info heap6w b)))) ys
           \<and> (\<forall>z. filter (\<lambda>a. sint (idx (dat h' (info heap6w z))) \<le> sint (idx (dat h' (info heap6w a)))
                            \<and> sint (idx (dat h' (info heap6w a))) \<le> sint (idx (dat h' (info heap6w z)))) ys
                  = filter (\<lambda>a. sint (idx (dat h' (info heap6w z))) \<le> sint (idx (dat h' (info heap6w a)))
                            \<and> sint (idx (dat h' (info heap6w a))) \<le> sint (idx (dat h' (info heap6w z))))
                      [0, 1, 2, 3, 4, 5])
           \<and> sorted_wrt (\<lambda>a b. sint (fst (cmp_idx (info heap6w a) (info heap6w b) res' (dat h'))) \<le> 0) ys)
   \<and> is_list heap6w None []
   \<and> core_list_mergesort heap6w None cmp_idx (None :: unit option) = None"
proof -
  have l: "is_list heap6w (Some 0) [0, 1, 2, 3, 4, 5]"
    by (simp add: is_list_def heap6w_def)
  have oc: "ordering_cmp (cmp_idx :: unit option list_cmp) (info heap6w ` set [0, 1, 2, 3, 4, 5])
        (\<lambda>d res r. True) (\<lambda>d res x y. sint (idx (d x)) \<le> sint (idx (d y)))"
    by (rule ordering_cmp_idx)
  have l0: "is_list heap6w None []" by (simp add: is_list_def)
  have oc0: "ordering_cmp (cmp_idx :: unit option list_cmp) (info heap6w ` set [])
        (\<lambda>d res r. True) (\<lambda>d res x y. sint (idx (d x)) \<le> sint (idx (d y)))"
    by (rule ordering_cmp_idx)
  from core_list_mergesort_sorts [OF l _ oc, of None]
    core_list_mergesort_sorts [OF l0 _ oc0, of None] l oc l0
  show ?thesis by simp
qed

text \<open>
  The same six cells with records that \<open>cmp_idx\<close> leaves as they are, and a comparator
  by \<open>idx\<close> that writes nothing.
\<close>

definition heap6 :: heap where
  "heap6 = \<lparr>nxt = (\<lambda>n. if n < 5 then Some (n + 1) else None), info = (\<lambda>n. n),
            dat = (\<lambda>n. \<lparr>data16 = of_nat (n * 257), idx = of_nat ((7 * n + 3) mod 5)\<rparr>)\<rparr>"

definition by_idx :: "list_data \<Rightarrow> list_data \<Rightarrow> ee_s32" where
  "by_idx x y = (if sint (idx x) \<le> sint (idx y) then 0 else 1)"

section \<open>The edge cases of the sort\<close>

lemma mergesort_single:
  assumes "nxt h a = None"
  shows "core_list_mergesort h (Some a) cmp res = Some (Some a, h, res)"
    and "\<exists>s. sort_loop cmp (sort_entry h (Some a) res) = Some s \<and> nmerges s = 1
           \<and> list_ptr s = Some a \<and> mem s = h \<and> ctx s = res"
proof -
  have sq: "step_q (\<lparr>mem = h, ctx = res, list_ptr = None, p_ptr = Some a, q_ptr = Some a,
                  tail_ptr = None, insize = 1, nmerges = 1, psize = 0, qsize = 0, i_cnt = 0\<rparr>)
      = Some \<lparr>mem = h, ctx = res, list_ptr = None, p_ptr = Some a, q_ptr = None,
                  tail_ptr = None, insize = 1, nmerges = 1, psize = 1, qsize = 0, i_cnt = 0\<rparr>"
    using assms by (subst step_q.simps) simp
  have ml: "merge_loop cmp \<lparr>mem = h, ctx = res, list_ptr = None, p_ptr = Some a, q_ptr = None,
                  tail_ptr = None, insize = 1, nmerges = 1, psize = 1, qsize = 1, i_cnt = 0\<rparr>
      = Some \<lparr>mem = h, ctx = res, list_ptr = Some a, p_ptr = None, q_ptr = None,
                  tail_ptr = Some a, insize = 1, nmerges = 1, psize = 0, qsize = 1, i_cnt = 0\<rparr>"
    using assms
    by (subst merge_loop.simps, simp add: merge_step_def take_p_def add_merged_def,
        subst merge_loop.simps, simp)
  have pl: "pass_loop cmp \<lparr>mem = h, ctx = res, list_ptr = None, p_ptr = Some a, q_ptr = None,
                  tail_ptr = None, insize = 1, nmerges = 0, psize = 0, qsize = 0, i_cnt = 0\<rparr>
      = Some \<lparr>mem = h, ctx = res, list_ptr = Some a, p_ptr = None, q_ptr = None,
                  tail_ptr = Some a, insize = 1, nmerges = 1, psize = 0, qsize = 1, i_cnt = 0\<rparr>"
    using sq ml
    by (subst pass_loop.simps, simp add: s32_max_def, subst pass_loop.simps, simp)
  have hh: "h\<lparr>nxt := (nxt h)(a := None)\<rparr> = h" using assms by (simp add: fun_upd_idem)
  have sl: "sort_loop cmp (sort_entry h (Some a) res)
      = Some \<lparr>mem = h, ctx = res, list_ptr = Some a, p_ptr = None, q_ptr = None,
                  tail_ptr = Some a, insize = 1, nmerges = 1, psize = 0, qsize = 1, i_cnt = 0\<rparr>"
    using pl hh by (subst sort_loop.simps) (simp add: sort_entry_def)
  show "core_list_mergesort h (Some a) cmp res = Some (Some a, h, res)"
    using sl by (simp add: core_list_mergesort_def)
  show "\<exists>s. sort_loop cmp (sort_entry h (Some a) res) = Some s \<and> nmerges s = 1
           \<and> list_ptr s = Some a \<and> mem s = h \<and> ctx s = res"
    using sl by simp
qed

text \<open>
  C7.  On the empty list \<open>core_list_mergesort\<close> does not reach its \<open>return\<close>: whatever
  the memory and the comparator, the assignment \<open>tail->next = NULL\<close> after the first pass
  dereferences \<open>NULL\<close>.  A list of one cell is returned as it is, for every comparator
  and with no call of it; the pass counts one merge (\<open>nmerges = 1\<close>).
\<close>

theorem mergesort_edge_cases:
  "core_list_mergesort h None cmp res = None
   \<and> core_list_mergesort (h\<lparr>nxt := (nxt h)(a := None)\<rparr>) (Some a) cmp res
       = Some (Some a, h\<lparr>nxt := (nxt h)(a := None)\<rparr>, res)
   \<and> (\<exists>s. sort_loop cmp (sort_entry (h\<lparr>nxt := (nxt h)(a := None)\<rparr>) (Some a) res) = Some s
          \<and> nmerges s = 1)"
proof -
  have n: "nxt (h\<lparr>nxt := (nxt h)(a := None)\<rparr>) a = None" by simp
  from mergesort_single [OF n, of cmp res] mergesort_empty [of h cmp res]
  show ?thesis by blast
qed

section \<open>Records that the sort by \<open>idx\<close> leaves alone\<close>

text \<open>
  A record is normalized when \<open>cmp_idx\<close> with the \<open>NULL\<close> context writes back the
  \<open>data16\<close> it finds: the low byte is a copy of the high byte.
\<close>

definition normalized :: "list_data \<Rightarrow> bool" where
  "normalized r = (regen_data (data16 r) = data16 r)"

lemma regen_pattern:
  fixes datpat :: ee_u16 and i :: ee_u32
  defines "dv \<equiv> push_bit 3 (datpat AND 0xf) OR ucast (i AND 0x7)"
  shows "regen_data (push_bit 8 dv OR dv) = push_bit 8 dv OR dv"
proof -
  have m4: "(0xf :: ee_u16) = mask 4" and m3: "(0x7 :: ee_u32) = mask 3"
    by (simp_all add: mask_eq_exp_minus_1)
  have hi: "\<not> bit dv n" if "n \<ge> 8" for n
    using that unfolding dv_def m4 m3
    by (auto simp: bit_simps word_size simp flip: take_bit_eq_mask)
  have mff: "(0xff :: ee_s16) = mask 8" by (simp add: mask_eq_exp_minus_1)
  have mff00: "(0xff00 :: ee_s16) = push_bit 8 (mask 8)" by (simp add: mask_eq_exp_minus_1)
  show ?thesis
    unfolding regen_data_def mff mff00
    apply (rule bit_word_eqI)
    apply (auto simp: bit_simps hi simp flip: take_bit_eq_mask)
    done
qed

lemma regen_head: "regen_data (0x8080 :: ee_s16) = 0x8080"
  by (simp add: regen_data_def)

lemma regen_tail: "regen_data (0xffff :: ee_s16) = 0xffff"
  by (simp add: regen_data_def)

lemma cmp_idx_normalized:
  assumes "normalized (d a)" and "normalized (d b)"
  shows "cmp_idx a b None d = (scast (idx (d a)) - scast (idx (d b)), d, None)"
proof -
  have "d(a := (d a)\<lparr>data16 := regen_data (data16 (d a))\<rparr>) = d"
    using assms(1) by (simp add: normalized_def fun_eq_iff)
  moreover have "d(b := (d b)\<lparr>data16 := regen_data (data16 (d b))\<rparr>) = d"
    using assms(2) by (simp add: normalized_def fun_eq_iff)
  ultimately show ?thesis by (simp add: cmp_idx_def Let_def)
qed

section \<open>The cells taken from the block\<close>

text \<open>
  The state after the head and \<open>c\<close> further cells have been taken from a block whose
  cells start at \<open>mb\<close> and whose records start at \<open>db\<close>: every new cell was linked
  in directly behind the head.
\<close>

definition built :: "alloc \<Rightarrow> nat \<Rightarrow> nat \<Rightarrow> nat \<Rightarrow> bool" where
  "built s mb db c =
     (memblock s = mb + 1 + c \<and> datablock s = db + 1 + c
      \<and> chain (nxt (hp s)) (Some mb) (mb # rev [mb + 1 ..< mb + 1 + c]) None
      \<and> (\<forall>j\<le>c. info (hp s) (mb + j) = db + j)
      \<and> (\<forall>j\<le>c. normalized (dat (hp s) (db + j))))"

lemma insert_new_built:
  assumes "built s mb db c" and "c + 2 < N" and "normalized info_v"
  shows "\<exists>s'. core_list_insert_new (Some mb) info_v s (mb + N) (db + N)
                 = Some (Some (mb + 1 + c), s') \<and> built s' mb db (c + 1)
               \<and> dat (hp s') = copy_info (dat (hp s)) (db + 1 + c) info_v"
proof -
  let ?n = "mb + 1 + c"
  let ?h = "hp s"
  let ?nx = "((nxt ?h)(?n := nxt ?h mb))(mb := Some ?n)"
  let ?inf = "(info ?h)(?n := db + 1 + c)"
  let ?d = "copy_info (dat ?h) (db + 1 + c) info_v"
  let ?s' = "\<lparr>hp = \<lparr>nxt = ?nx, info = ?inf, dat = ?d\<rparr>, memblock = ?n + 1, datablock = db + 1 + c + 1\<rparr>"
  from assms(1) have m: "memblock s = ?n" and dbl: "datablock s = db + 1 + c"
    and ch: "chain (nxt ?h) (nxt ?h mb) (rev [mb + 1 ..< mb + 1 + c]) None"
    and inf: "\<forall>j\<le>c. info ?h (mb + j) = db + j"
    and nrm: "\<forall>j\<le>c. normalized (dat ?h (db + j))"
    by (simp_all add: built_def)
  have run: "core_list_insert_new (Some mb) info_v s (mb + N) (db + N) = Some (Some ?n, ?s')"
    using assms(2) m dbl by (simp add: core_list_insert_new_def Let_def)
  have "chain ?nx (nxt ?h mb) (rev [mb + 1 ..< mb + 1 + c]) None"
    using ch by (subst chain_cong_on [where nx = "nxt ?h"]) auto
  then have ch': "chain ?nx (Some mb) (mb # rev [mb + 1 ..< mb + 1 + (c + 1)]) None"
    by simp
  have inf': "\<forall>j\<le>c + 1. ?inf (mb + j) = db + j"
    using inf by (auto simp: le_Suc_eq)
  have nrm': "\<forall>j\<le>c + 1. normalized (?d (db + j))"
    using nrm assms(3) by (auto simp: le_Suc_eq copy_info_def normalized_def)
  have "built ?s' mb db (c + 1)"
    unfolding built_def using ch' inf' nrm' by simp
  with run show ?thesis by (intro exI [of _ ?s']) simp
qed

lemma insert_new_full:
  assumes "built s mb db c" and "c + 2 \<ge> N"
  shows "core_list_insert_new (Some mb) info_v s (mb + N) (db + N) = Some (None, s)"
  using assms by (simp add: core_list_insert_new_def built_def)

lemma insert_loop_built:
  assumes "built s mb db c" and "c + 2 \<le> N" and "n = unat sz - unat i"
  shows "\<exists>s'. insert_loop i sz seed (Some mb) info_v s (mb + N) (db + N) = Some s'
           \<and> built s' mb db (min (c + n) (N - 2))
           \<and> (\<forall>r\<le>db + c. dat (hp s') r = dat (hp s) r)"
  using assms
proof (induction n arbitrary: i s c info_v)
  case 0
  then have "\<not> i < sz" by (simp add: word_less_nat_alt)
  then have "insert_loop i sz seed (Some mb) info_v s (mb + N) (db + N) = Some s"
    by (subst insert_loop.simps) simp
  moreover have "min (c + 0) (N - 2) = c" using "0.prems"(2) by simp
  ultimately show ?case using "0.prems"(1) by simp
next
  case (Suc n)
  then have lt: "i < sz" by (simp add: word_less_nat_alt)
  have ui: "unat (i + 1) = unat i + 1" using lt by (rule unat_succ_less)
  have n: "n = unat sz - unat (i + 1)" using Suc.prems(3) ui by simp
  define datpat where "datpat = (ucast (scast seed XOR i) :: ee_u16)"
  define dv where "dv = push_bit 3 (datpat AND 0xf) OR (ucast (i AND 0x7) :: ee_u16)"
  define info_v' where "info_v' = info_v\<lparr>data16 := push_bit 8 dv OR dv\<rparr>"
  have nrm: "normalized info_v'"
    unfolding info_v'_def dv_def normalized_def using regen_pattern [of datpat i] by simp
  have unf: "insert_loop i sz seed (Some mb) info_v s (mb + N) (db + N) =
     (case core_list_insert_new (Some mb) info_v' s (mb + N) (db + N) of
        None \<Rightarrow> None
      | Some r \<Rightarrow> insert_loop (i + 1) sz seed (Some mb) info_v' (snd r) (mb + N) (db + N))"
    by (subst insert_loop.simps) (simp only: lt if_True Let_def info_v'_def dv_def datpat_def)
  show ?case
  proof (cases "c + 2 < N")
    case True
    from insert_new_built [OF Suc.prems(1) True nrm]
    obtain s1 where s1: "core_list_insert_new (Some mb) info_v' s (mb + N) (db + N)
                 = Some (Some (mb + 1 + c), s1)" and b1: "built s1 mb db (c + 1)"
      and d1: "dat (hp s1) = copy_info (dat (hp s)) (db + 1 + c) info_v'"
      by blast
    from True have c1: "c + 1 + 2 \<le> N" by simp
    from Suc.IH [OF b1 c1 n, of info_v']
    obtain s' where "insert_loop (i + 1) sz seed (Some mb) info_v' s1 (mb + N) (db + N) = Some s'"
      and "built s' mb db (min (c + 1 + n) (N - 2))"
      and "\<forall>r\<le>db + (c + 1). dat (hp s') r = dat (hp s1) r"
      by blast
    moreover have "c + 1 + n = c + Suc n" by simp
    moreover have "\<forall>r\<le>db + c. dat (hp s1) r = dat (hp s) r"
      using d1 by (simp add: copy_info_def)
    ultimately show ?thesis using unf s1 by (intro exI [of _ s']) simp
  next
    case False
    then have full: "c + 2 \<ge> N" by simp
    have s1: "core_list_insert_new (Some mb) info_v' s (mb + N) (db + N) = Some (None, s)"
      using Suc.prems(1) full by (rule insert_new_full)
    from Suc.IH [OF Suc.prems(1) Suc.prems(2) n, of info_v']
    obtain s' where "insert_loop (i + 1) sz seed (Some mb) info_v' s (mb + N) (db + N) = Some s'"
      and "built s' mb db (min (c + n) (N - 2))"
      and "\<forall>r\<le>db + c. dat (hp s') r = dat (hp s) r"
      by blast
    moreover have "min (c + n) (N - 2) = min (c + Suc n) (N - 2)"
      using full Suc.prems(2) by simp
    ultimately show ?thesis using unf s1 by (intro exI [of _ s']) simp
  qed
qed

lemma init_items_built:
  assumes "N = unat (list_size blksize)" and "3 \<le> N"
  shows "\<exists>s. init_items blksize mb seed h0 = Some s \<and> built s mb (mb + N) (N - 2)
           \<and> dat (hp s) (mb + N) = (dat h0 (mb + N))\<lparr>idx := 0, data16 := 0x8080\<rparr>
           \<and> dat (hp s) (mb + N + 1) = (dat h0 (mb + N + 1))\<lparr>data16 := 0xffff, idx := 0x7fff\<rparr>"
proof -
  let ?db = "mb + N"
  let ?h4 = "h0\<lparr>nxt := (nxt h0)(mb := None), info := (info h0)(mb := ?db),
              dat := (dat h0)(?db := (dat h0 ?db)\<lparr>idx := 0, data16 := 0x8080\<rparr>)\<rparr>"
  let ?s0 = "\<lparr>hp = ?h4, memblock = mb + 1, datablock = ?db + 1\<rparr>"
  let ?iv = "\<lparr>data16 = 0xffff, idx = 0x7fff\<rparr> :: list_data"
  have b0: "built ?s0 mb ?db 0"
    by (simp add: built_def normalized_def regen_head)
  have niv: "normalized ?iv" by (simp add: normalized_def regen_tail)
  from insert_new_built [OF b0 _ niv, of N] assms(2)
  obtain s1 where s1: "core_list_insert_new (Some mb) ?iv ?s0 (mb + N) (?db + N)
                 = Some (Some (mb + 1), s1)" and b1: "built s1 mb ?db 1"
    and d1: "dat (hp s1) = copy_info (dat (hp ?s0)) (?db + 1 + 0) ?iv"
    by auto
  have mn: "min (1 + N) (N - 2) = N - 2" by simp
  from insert_loop_built [OF b1, of N N "list_size blksize" 0 seed ?iv] assms
  obtain s' where s': "insert_loop 0 (list_size blksize) seed (Some mb) ?iv s1 (mb + N) (?db + N) = Some s'"
    and b': "built s' mb ?db (N - 2)"
    and fr: "\<forall>r\<le>?db + 1. dat (hp s') r = dat (hp s1) r"
    unfolding mn by auto
  have run: "init_items blksize mb seed h0 = Some s'"
    using s1 s' assms(1) by (simp add: init_items_def Let_def)
  have hd: "dat (hp s') (mb + N) = (dat h0 (mb + N))\<lparr>idx := 0, data16 := 0x8080\<rparr>"
    using fr d1 by (simp add: copy_info_def)
  have tl: "dat (hp s') (mb + N + 1) = (dat h0 (mb + N + 1))\<lparr>data16 := 0xffff, idx := 0x7fff\<rparr>"
    using fr d1 by (simp add: copy_info_def)
  show ?thesis using run b' hd tl by blast
qed

section \<open>The indexing walk and the reversal\<close>

text \<open>
  The value that the indexing walk stores when its counter is \<open>i\<close>, in closed form.
\<close>

definition idx_rank :: "ee_u32 \<Rightarrow> ee_s16 \<Rightarrow> ee_u32 \<Rightarrow> ee_s16" where
  "idx_rank sz seed i =
     (if i < sz div 5 then ucast i
      else ucast (0x3fff AND (push_bit 8 ((i + 1) AND 0x07)
                               OR ucast (ucast (i XOR scast seed) :: ee_u16))))"

lemma index_loop_step:
  assumes "nxt h f \<noteq> None"
  shows "index_loop sz seed h (Some f) i =
           index_loop sz seed
             (h\<lparr>dat := (dat h)(info h f := (dat h (info h f))\<lparr>idx := idx_rank sz seed i\<rparr>)\<rparr>)
             (nxt h f) (i + 1)"
  using assms by (subst index_loop.simps) (simp add: idx_rank_def Let_def)

lemma index_loop_ranks:
  assumes "chain (nxt h) finder (as @ [t]) None" and "distinct (map (info h) as)"
  shows "\<exists>h'. index_loop sz seed h finder i = Some h'
           \<and> nxt h' = nxt h \<and> info h' = info h
           \<and> (\<forall>j<length as. dat h' (info h (as ! j))
                  = (dat h (info h (as ! j)))\<lparr>idx := idx_rank sz seed (i + of_nat j)\<rparr>)
           \<and> (\<forall>r. r \<notin> info h ` set as \<longrightarrow> dat h' r = dat h r)"
  using assms
proof (induction as arbitrary: h finder i)
  case Nil
  then have "finder = Some t" and "nxt h t = None" by simp_all
  then show ?case by (subst index_loop.simps) simp
next
  case (Cons a as)
  let ?h1 = "h\<lparr>dat := (dat h)(info h a := (dat h (info h a))\<lparr>idx := idx_rank sz seed i\<rparr>)\<rparr>"
  from Cons.prems(1) have f: "finder = Some a" and ch: "chain (nxt h) (nxt h a) (as @ [t]) None"
    by simp_all
  from ch have ne: "nxt h a \<noteq> None" by (cases as) auto
  have step: "index_loop sz seed h finder i = index_loop sz seed ?h1 (nxt h a) (i + 1)"
    using f index_loop_step [OF ne] by simp
  have ch1: "chain (nxt ?h1) (nxt h a) (as @ [t]) None" using ch by simp
  have d1: "distinct (map (info ?h1) as)" using Cons.prems(2) by simp
  from Cons.IH [OF ch1 d1, of "i + 1"]
  obtain h' where run: "index_loop sz seed ?h1 (nxt h a) (i + 1) = Some h'"
    and nx: "nxt h' = nxt h" and inf: "info h' = info h"
    and rk: "\<forall>j<length as. dat h' (info h (as ! j))
                  = (dat ?h1 (info h (as ! j)))\<lparr>idx := idx_rank sz seed (i + 1 + of_nat j)\<rparr>"
    and fr: "\<forall>r. r \<notin> info h ` set as \<longrightarrow> dat h' r = dat ?h1 r"
    by auto
  have notin: "info h a \<notin> info h ` set as" using Cons.prems(2) by auto
  have rk': "\<forall>j<length (a # as). dat h' (info h ((a # as) ! j))
                  = (dat h (info h ((a # as) ! j)))\<lparr>idx := idx_rank sz seed (i + of_nat j)\<rparr>"
  proof (intro allI impI)
    fix j assume j: "j < length (a # as)"
    show "dat h' (info h ((a # as) ! j))
            = (dat h (info h ((a # as) ! j)))\<lparr>idx := idx_rank sz seed (i + of_nat j)\<rparr>"
    proof (cases j)
      case 0
      then show ?thesis using fr notin by simp
    next
      case (Suc k)
      with j have k: "k < length as" by simp
      then have "info h (as ! k) \<noteq> info h a" using notin by (metis imageI nth_mem)
      then show ?thesis using rk k Suc by (simp add: add.assoc)
    qed
  qed
  have fr': "\<forall>r. r \<notin> info h ` set (a # as) \<longrightarrow> dat h' r = dat h r"
    using fr by auto
  show ?case using step run nx inf rk' fr' by simp
qed

lemma reverse_loop_correct:
  assumes "chain nx list as None" and "chain nx acc bs None" and "distinct (as @ bs)"
  shows "\<exists>nx'. reverse_loop nx list acc = Some (case rev as @ bs of [] \<Rightarrow> None | a # _ \<Rightarrow> Some a, nx')
           \<and> chain nx' (case rev as @ bs of [] \<Rightarrow> None | a # _ \<Rightarrow> Some a) (rev as @ bs) None
           \<and> (\<forall>a. a \<notin> set as \<longrightarrow> nx' a = nx a)"
  using assms
proof (induction as arbitrary: nx list acc bs)
  case Nil
  then have "list = None" by simp
  moreover have "acc = (case bs of [] \<Rightarrow> None | a # _ \<Rightarrow> Some a)"
    using Nil.prems(2) by (cases bs) auto
  ultimately show ?case using Nil.prems(2) by (subst reverse_loop.simps) auto
next
  case (Cons a as)
  then have l: "list = Some a" and ch: "chain nx (nx a) as None" by simp_all
  let ?nx = "nx(a := acc)"
  have ch1: "chain ?nx (nx a) as None"
    using ch Cons.prems(3) by (simp add: chain_update_other)
  have ch2: "chain ?nx (Some a) (a # bs) None"
    using Cons.prems(2,3) by (simp add: chain_update_other)
  have d: "distinct (as @ a # bs)" using Cons.prems(3) by auto
  from Cons.IH [OF ch1 ch2 d]
  obtain nx' where "reverse_loop ?nx (nx a) (Some a)
        = Some (case rev as @ a # bs of [] \<Rightarrow> None | a # _ \<Rightarrow> Some a, nx')"
    and "chain nx' (case rev as @ a # bs of [] \<Rightarrow> None | a # _ \<Rightarrow> Some a) (rev as @ a # bs) None"
    and "\<forall>b. b \<notin> set as \<longrightarrow> nx' b = ?nx b"
    by blast
  then show ?case using l by (subst reverse_loop.simps) (auto intro!: exI [of _ nx'])
qed

lemma core_list_reverse_correct:
  assumes "is_list h list as"
  shows "\<exists>l' h'. core_list_reverse h list = Some (l', h') \<and> is_list h' l' (rev as)
           \<and> info h' = info h \<and> dat h' = dat h"
proof -
  from assms have ch: "chain (nxt h) list as None" and d: "distinct as"
    by (simp_all add: is_list_def)
  from reverse_loop_correct [OF ch, of None "[]"] d
  obtain nx' where "reverse_loop (nxt h) list None
        = Some (case rev as of [] \<Rightarrow> None | a # _ \<Rightarrow> Some a, nx')"
    and "chain nx' (case rev as of [] \<Rightarrow> None | a # _ \<Rightarrow> Some a) (rev as) None"
    by auto
  then show ?thesis using d
    by (intro exI [of _ "case rev as of [] \<Rightarrow> None | a # _ \<Rightarrow> Some a"] exI [of _ "h\<lparr>nxt := nx'\<rparr>"])
      (simp add: core_list_reverse_def is_list_def)
qed

lemma sorted_perm_unique:
  assumes "sorted_wrt le xs" and "sorted_wrt le ys" and "mset xs = mset ys"
    and "\<And>a b. a \<in> set xs \<Longrightarrow> b \<in> set xs \<Longrightarrow> le a b \<Longrightarrow> le b a \<Longrightarrow> a = b"
    and "distinct xs"
  shows "xs = ys"
  using assms
proof (induction xs arbitrary: ys)
  case Nil
  then show ?case by simp
next
  case (Cons x xs)
  from Cons.prems(3) have "ys \<noteq> []" by auto
  then obtain y ys' where ys: "ys = y # ys'" by (cases ys) auto
  have sets: "set (x # xs) = set ys" using Cons.prems(3) by (rule mset_eq_setD)
  have "x = y"
  proof (rule ccontr)
    assume ne: "x \<noteq> y"
    then have yin: "y \<in> set xs" using sets ys by auto
    then have xy: "le x y" using Cons.prems(1) by auto
    from ne have "x \<in> set ys'" using sets ys by auto
    then have yx: "le y x" using Cons.prems(2) ys by auto
    have "x = y" by (rule Cons.prems(4)) (use yin xy yx in simp_all)
    with ne show False by simp
  qed
  moreover have "xs = ys'"
  proof (rule Cons.IH)
    show "sorted_wrt le xs" using Cons.prems(1) by simp
    show "sorted_wrt le ys'" using Cons.prems(2) ys by simp
    show "mset xs = mset ys'" using Cons.prems(3) ys \<open>x = y\<close> by simp
    show "\<And>a b. a \<in> set xs \<Longrightarrow> b \<in> set xs \<Longrightarrow> le a b \<Longrightarrow> le b a \<Longrightarrow> a = b"
      using Cons.prems(4) by simp
    show "distinct xs" using Cons.prems(5) by simp
  qed
  ultimately show ?case using ys by simp
qed

section \<open>The list that \<open>core_list_init\<close> returns\<close>

lemma unat_list_size:
  assumes "40 \<le> unat blksize"
  shows "unat (list_size blksize) = unat blksize div 20 - 2"
proof -
  have d: "unat (blksize div 20) = unat blksize div 20" by (simp add: unat_div)
  then have "2 \<le> unat (blksize div 20)" using assms by simp
  then have "(2 :: ee_u32) \<le> blksize div 20" by (simp add: word_le_nat_alt)
  then have "unat (blksize div 20 - 2) = unat (blksize div 20) - 2"
    by (simp add: unat_sub)
  then show ?thesis using d by (simp add: list_size_def sizeof_list_data_def)
qed

definition idx_le :: "heap \<Rightarrow> nat \<Rightarrow> nat \<Rightarrow> bool" where
  "idx_le h a b = (sint (idx (dat h (info h a))) \<le> sint (idx (dat h (info h b))))"

lemma total_preorder_idx_le: "total_preorder (idx_le h)"
  by (auto simp: total_preorder_def idx_le_def)

lemma pure_on_cmp_idx:
  assumes "\<forall>a\<in>A. normalized (dat h (info h a))"
  shows "pure_on cmp_idx (info h) (dat h) None A (idx_le h)"
  unfolding pure_on_def
proof (intro ballI)
  fix a b assume "a \<in> A" "b \<in> A"
  then have "cmp_idx (info h a) (info h b) None (dat h)
      = (scast (idx (dat h (info h a))) - scast (idx (dat h (info h b))), dat h, None)"
    using assms by (intro cmp_idx_normalized) auto
  moreover have "(sint ((scast (idx (dat h (info h a))) :: ee_s32) - scast (idx (dat h (info h b)))) \<le> 0)
      = idx_le h a b"
    by (simp add: sint_idx_diff idx_le_def)
  ultimately show "\<exists>c. cmp_idx (info h a) (info h b) None (dat h) = (c, dat h, None)
      \<and> (sint c \<le> 0) = idx_le h a b"
    by blast
qed

text \<open>What \<open>core_list_init\<close> leaves behind.\<close>

definition init_cells :: "nat \<Rightarrow> nat \<Rightarrow> nat list" where
  "init_cells mb N = mb # rev [mb + 1 ..< mb + N - 1]"

lemma core_list_init_built:
  assumes "100 \<le> unat blksize" and "N = unat blksize div 20 - 2"
  shows "\<exists>s h5 l h ys.
           init_items blksize mb seed h0 = Some s
           \<and> built s mb (mb + N) (N - 2)
           \<and> index_loop (list_size blksize) seed (hp s) (nxt (hp s) mb) 1 = Some h5
           \<and> nxt h5 = nxt (hp s) \<and> info h5 = info (hp s)
           \<and> (\<forall>j<N - 3. dat h5 (mb + N + 2 + (N - 4 - j))
                  = (dat (hp s) (mb + N + 2 + (N - 4 - j)))
                      \<lparr>idx := idx_rank (list_size blksize) seed (1 + of_nat j)\<rparr>)
           \<and> dat h5 (mb + N) = (dat h0 (mb + N))\<lparr>idx := 0, data16 := 0x8080\<rparr>
           \<and> dat h5 (mb + N + 1) = (dat h0 (mb + N + 1))\<lparr>data16 := 0xffff, idx := 0x7fff\<rparr>
           \<and> core_list_init blksize mb seed h0 = Some (l, h)
           \<and> is_list h l ys \<and> mset ys = mset (init_cells mb N)
           \<and> sorted_wrt (idx_le h) ys
           \<and> info h = info h5 \<and> dat h = dat h5
           \<and> (\<forall>a\<in>set ys. normalized (dat h (info h a)))"
proof -
  have N: "N = unat (list_size blksize)" using assms unat_list_size [of blksize] by simp
  have N3: "3 \<le> N" using assms by simp
  from init_items_built [OF N N3, of mb seed h0]
  obtain s where s: "init_items blksize mb seed h0 = Some s"
    and b: "built s mb (mb + N) (N - 2)"
    and hd: "dat (hp s) (mb + N) = (dat h0 (mb + N))\<lparr>idx := 0, data16 := 0x8080\<rparr>"
    and tl: "dat (hp s) (mb + N + 1) = (dat h0 (mb + N + 1))\<lparr>data16 := 0xffff, idx := 0x7fff\<rparr>"
    by blast
  let ?h = "hp s"
  let ?as = "rev [mb + 2 ..< mb + N - 1]"
  have cells2: "rev [mb + 1 ..< mb + N - 1] = ?as @ [mb + 1]"
  proof -
    have "mb + 1 < mb + N - 1" using N3 by simp
    then have "[mb + 1 ..< mb + N - 1] = (mb + 1) # [Suc (mb + 1) ..< mb + N - 1]"
      by (rule upt_conv_Cons)
    then have "[mb + 1 ..< mb + N - 1] = (mb + 1) # [mb + 2 ..< mb + N - 1]" by simp
    then show ?thesis by (simp only: rev.simps)
  qed
  have e1: "mb + 1 + (N - 2) = mb + N - 1" using N3 by simp
  have cells: "rev [mb + 1 ..< mb + 1 + (N - 2)] = ?as @ [mb + 1]"
    unfolding e1 by (rule cells2)
  from b have ch: "chain (nxt ?h) (nxt ?h mb) (?as @ [mb + 1]) None"
    and chl: "chain (nxt ?h) (Some mb) (mb # ?as @ [mb + 1]) None"
    and inf: "\<forall>j\<le>N - 2. info ?h (mb + j) = mb + N + j"
    and nrm: "\<forall>j\<le>N - 2. normalized (dat ?h (mb + N + j))"
    unfolding built_def cells by simp_all
  have inf_a: "info ?h a = a + N" if "a \<in> set (mb # ?as @ [mb + 1])" for a
  proof -
    from that N3 have "mb \<le> a" "a - mb \<le> N - 2" by auto
    with inf have "info ?h (mb + (a - mb)) = mb + N + (a - mb)" by blast
    with \<open>mb \<le> a\<close> show ?thesis by simp
  qed
  have di: "distinct (map (info ?h) ?as)"
  proof -
    have eq: "map (info ?h) ?as = map (\<lambda>a. a + N) ?as"
      by (rule map_cong) (simp_all add: inf_a)
    have "distinct (map (\<lambda>a. a + N) ?as)"
      by (simp add: distinct_map inj_on_def)
    then show ?thesis by (simp only: eq)
  qed
  from index_loop_ranks [OF ch di, of "list_size blksize" seed 1]
  obtain h5 where h5: "index_loop (list_size blksize) seed ?h (nxt ?h mb) 1 = Some h5"
    and nx5: "nxt h5 = nxt ?h" and inf5: "info h5 = info ?h"
    and rk: "\<forall>j<length ?as. dat h5 (info ?h (?as ! j))
                  = (dat ?h (info ?h (?as ! j)))\<lparr>idx := idx_rank (list_size blksize) seed (1 + of_nat j)\<rparr>"
    and fr: "\<forall>r. r \<notin> info ?h ` set ?as \<longrightarrow> dat h5 r = dat ?h r"
    by blast
  have len_as: "length ?as = N - 3" using N3 by simp
  have as_nth: "?as ! j = mb + 2 + (N - 4 - j)" if "j < N - 3" for j
    using that by (simp add: rev_nth)
  have rk': "\<forall>j<N - 3. dat h5 (mb + N + 2 + (N - 4 - j))
                  = (dat ?h (mb + N + 2 + (N - 4 - j)))
                      \<lparr>idx := idx_rank (list_size blksize) seed (1 + of_nat j)\<rparr>"
  proof (intro allI impI)
    fix j assume j: "j < N - 3"
    then have "?as ! j \<in> set (mb # ?as @ [mb + 1])" using len_as by (simp del: set_rev)
    then have "info ?h (?as ! j) = mb + N + 2 + (N - 4 - j)"
      using inf_a [of "?as ! j"] as_nth [OF j] by simp
    then show "dat h5 (mb + N + 2 + (N - 4 - j))
                  = (dat ?h (mb + N + 2 + (N - 4 - j)))
                      \<lparr>idx := idx_rank (list_size blksize) seed (1 + of_nat j)\<rparr>"
      using rk j len_as by auto
  qed
  have img: "info ?h ` set ?as = {mb + N + 2 ..< mb + N + N - 1}"
  proof -
    have "info ?h ` set ?as = (\<lambda>a. a + N) ` set ?as"
      by (rule image_cong) (simp_all add: inf_a)
    also have "\<dots> = {mb + N + 2 ..< mb + N + N - 1}"
      using N3 by (auto simp: image_iff)
    finally show ?thesis .
  qed
  have hd5: "dat h5 (mb + N) = (dat h0 (mb + N))\<lparr>idx := 0, data16 := 0x8080\<rparr>"
    using fr hd img by simp
  have tl5: "dat h5 (mb + N + 1) = (dat h0 (mb + N + 1))\<lparr>data16 := 0xffff, idx := 0x7fff\<rparr>"
    using fr tl img by simp
  have d16: "data16 (dat h5 r) = data16 (dat ?h r)" for r
  proof (cases "r \<in> info ?h ` set ?as")
    case True
    then obtain j where "j < length ?as" "r = info ?h (?as ! j)"
      by (metis imageE in_set_conv_nth)
    then show ?thesis using rk by simp
  next
    case False
    then show ?thesis using fr by simp
  qed
  let ?xs = "init_cells mb N"
  have xs: "?xs = mb # ?as @ [mb + 1]"
    by (simp only: init_cells_def cells2)
  have l5: "is_list h5 (Some mb) ?xs"
    using chl nx5 N3 unfolding xs is_list_def by auto
  have ne: "?xs \<noteq> []" by (simp add: init_cells_def)
  have lenN: "N \<le> 2 ^ 32 div 20"
  proof -
    have "unat blksize < 2 ^ 32" using unsigned_less [of blksize] by simp
    then show ?thesis using assms(2) by simp
  qed
  have len: "int (length ?xs) \<le> s32_max"
    using lenN N3 by (simp add: init_cells_def s32_max_def)
  have nrm5: "\<forall>a\<in>set ?xs. normalized (dat h5 (info h5 a))"
  proof
    fix a assume a: "a \<in> set ?xs"
    then have ia: "info ?h a = a + N" using inf_a xs by simp
    from a N3 have "mb \<le> a" "a - mb \<le> N - 2" unfolding xs by auto
    with nrm have "normalized (dat ?h (mb + N + (a - mb)))" by blast
    with \<open>mb \<le> a\<close> have "normalized (dat ?h (a + N))" by (simp add: add.commute add.left_commute)
    then show "normalized (dat h5 (info h5 a))"
      using ia inf5 d16 by (simp add: normalized_def)
  qed
  from mergesort_correct [OF l5 ne len pure_on_cmp_idx [OF nrm5] total_preorder_idx_le]
  obtain l h ys where ms: "core_list_mergesort h5 (Some mb) cmp_idx (None :: unit option) = Some (l, h, None)"
    and ly: "is_list h l ys" and mset: "mset ys = mset ?xs" and so: "sorted_wrt (idx_le h5) ys"
    and infh: "info h = info h5" and dath: "dat h = dat h5"
    by blast
  have run: "core_list_init blksize mb seed h0 = Some (l, h)"
    using s h5 ms by (simp add: core_list_init_def)
  have so': "sorted_wrt (idx_le h) ys"
    using so infh dath by (simp add: idx_le_def [abs_def])
  have nrmh: "\<forall>a\<in>set ys. normalized (dat h (info h a))"
    using nrm5 mset_eq_setD [OF mset] infh dath by simp
  show ?thesis
    using s b h5 nx5 inf5 rk' hd5 tl5 run ly mset so' infh dath nrmh by blast
qed

section \<open>The ranks assigned by the walk\<close>

text \<open>
  C4, amended.  For a block of at least 100 bytes and \<open>N = size\<close>, the insertions and
  the indexing walk return.  The chain is then the head \<open>mb\<close>, the \<open>N - 3\<close> cells
  \<open>mb + N - 2, \<dots>, mb + 2\<close> and the tail \<open>mb + 1\<close>.  The walk visits the cells between
  head and tail with the counter \<open>i = 1, 2, \<dots>\<close>.  A cell visited with \<open>i < size / 5\<close>
  gets the rank \<open>i\<close>: these are the first \<open>size / 5 - 1\<close> cells, not \<open>size / 5\<close>.  A
  later cell gets \<open>0x3fff & ((((i + 1) & 7) << 8) | pat)\<close> where \<open>pat\<close> is the 16-bit
  truncation of \<open>i ^ seed\<close>: the counter is incremented between the two reads.  Head and
  tail keep the ranks 0 and \<open>0x7fff\<close>.
\<close>

theorem index_walk_ranks:
  assumes "100 \<le> unat blksize" and "N = unat blksize div 20 - 2"
  shows "\<exists>s h. init_items blksize mb seed h0 = Some s
           \<and> index_loop (list_size blksize) seed (hp s) (nxt (hp s) mb) 1 = Some h
           \<and> unat (list_size blksize) = N
           \<and> chain (nxt h) (Some mb) (mb # rev [mb + 2 ..< mb + N - 1] @ [mb + 1]) None
           \<and> (\<forall>j<N - 3. idx (dat h (info h (rev [mb + 2 ..< mb + N - 1] ! j)))
                  = idx_rank (list_size blksize) seed (1 + of_nat j))
           \<and> idx (dat h (info h mb)) = 0 \<and> idx (dat h (info h (mb + 1))) = 0x7fff"
proof -
  have N3: "3 \<le> N" using assms by simp
  have Nu: "unat (list_size blksize) = N" using assms unat_list_size [of blksize] by simp
  from core_list_init_built [OF assms, of mb seed h0]
  obtain s h5 where s: "init_items blksize mb seed h0 = Some s"
    and b: "built s mb (mb + N) (N - 2)"
    and h5: "index_loop (list_size blksize) seed (hp s) (nxt (hp s) mb) 1 = Some h5"
    and nx5: "nxt h5 = nxt (hp s)" and inf5: "info h5 = info (hp s)"
    and rk: "\<forall>j<N - 3. dat h5 (mb + N + 2 + (N - 4 - j))
                  = (dat (hp s) (mb + N + 2 + (N - 4 - j)))
                      \<lparr>idx := idx_rank (list_size blksize) seed (1 + of_nat j)\<rparr>"
    and hd: "dat h5 (mb + N) = (dat h0 (mb + N))\<lparr>idx := 0, data16 := 0x8080\<rparr>"
    and tl: "dat h5 (mb + N + 1) = (dat h0 (mb + N + 1))\<lparr>data16 := 0xffff, idx := 0x7fff\<rparr>"
    by blast
  have cells2: "rev [mb + 1 ..< mb + N - 1] = rev [mb + 2 ..< mb + N - 1] @ [mb + 1]"
  proof -
    have "mb + 1 < mb + N - 1" using N3 by simp
    then have "[mb + 1 ..< mb + N - 1] = (mb + 1) # [Suc (mb + 1) ..< mb + N - 1]"
      by (rule upt_conv_Cons)
    then have "[mb + 1 ..< mb + N - 1] = (mb + 1) # [mb + 2 ..< mb + N - 1]" by simp
    then show ?thesis by (simp only: rev.simps)
  qed
  have e1: "mb + 1 + (N - 2) = mb + N - 1" using N3 by simp
  from b have ch: "chain (nxt (hp s)) (Some mb) (mb # rev [mb + 1 ..< mb + N - 1]) None"
    and inf: "\<forall>j\<le>N - 2. info (hp s) (mb + j) = mb + N + j"
    unfolding built_def e1 by simp_all
  have ch5: "chain (nxt h5) (Some mb) (mb # rev [mb + 2 ..< mb + N - 1] @ [mb + 1]) None"
    using ch unfolding nx5 cells2 by simp
  have i0: "info h5 mb = mb + N" using inf inf5 by (metis add.right_neutral le0)
  have i1: "info h5 (mb + 1) = mb + N + 1"
  proof -
    have "(1 :: nat) \<le> N - 2" using N3 by simp
    with inf have "info (hp s) (mb + 1) = mb + N + 1" by blast
    then show ?thesis using inf5 by simp
  qed
  have ranks: "\<forall>j<N - 3. idx (dat h5 (info h5 (rev [mb + 2 ..< mb + N - 1] ! j)))
                  = idx_rank (list_size blksize) seed (1 + of_nat j)"
  proof (intro allI impI)
    fix j assume j: "j < N - 3"
    then have nth: "rev [mb + 2 ..< mb + N - 1] ! j = mb + (2 + (N - 4 - j))"
      by (simp add: rev_nth)
    have "2 + (N - 4 - j) \<le> N - 2" using j by simp
    with inf have "info (hp s) (mb + (2 + (N - 4 - j))) = mb + N + (2 + (N - 4 - j))" by blast
    then have "info h5 (rev [mb + 2 ..< mb + N - 1] ! j) = mb + N + 2 + (N - 4 - j)"
      using nth inf5 by simp
    then show "idx (dat h5 (info h5 (rev [mb + 2 ..< mb + N - 1] ! j)))
                  = idx_rank (list_size blksize) seed (1 + of_nat j)"
      using rk j by simp
  qed
  show ?thesis
    using s h5 Nu ch5 ranks hd tl i0 i1 by (intro exI [of _ s] exI [of _ h5]) simp
qed

theorem index_walk_ranks_witness:
  "100 \<le> unat (240 :: ee_u32) \<and> (10 :: nat) = unat (240 :: ee_u32) div 20 - 2
   \<and> (\<exists>s h. init_items 240 0 0 blank_heap = Some s
           \<and> index_loop (list_size 240) 0 (hp s) (nxt (hp s) 0) 1 = Some h
           \<and> unat (list_size 240) = 10
           \<and> chain (nxt h) (Some 0) (0 # rev [0 + 2 ..< 0 + 10 - 1] @ [0 + 1]) None
           \<and> (\<forall>j<10 - 3. idx (dat h (info h (rev [0 + 2 ..< 0 + 10 - 1] ! j)))
                  = idx_rank (list_size 240) 0 (1 + of_nat j))
           \<and> idx (dat h (info h 0)) = 0 \<and> idx (dat h (info h (0 + 1))) = 0x7fff)"
proof -
  have a: "100 \<le> unat (240 :: ee_u32)" by simp
  have b: "(10 :: nat) = unat (240 :: ee_u32) div 20 - 2" by simp
  from index_walk_ranks [OF a b, of 0 0 blank_heap] a b show ?thesis by blast
qed

text \<open>
  C4 as stated, on a block of 240 bytes with seed 0 (\<open>size = 10\<close>, \<open>size / 5 = 2\<close>):
  the second cell of the walk already has a scrambled rank, and the scrambled ranks are
  not those of the formula with \<open>i & 7\<close>.
\<close>

theorem index_walk_counterexample:
  "(case init_items 240 0 0 blank_heap of
      None \<Rightarrow> False
    | Some s \<Rightarrow>
        (case index_loop (list_size 240) 0 (hp s) (nxt (hp s) 0) 1 of
           None \<Rightarrow> False
         | Some h \<Rightarrow>
             list_size 240 = 10 \<and> list_size 240 div 5 = 2
             \<and> chain (nxt h) (Some 0) [0, 8, 7, 6, 5, 4, 3, 2, 1] None
             \<and> map (\<lambda>a. idx (dat h (info h a))) [8, 7, 6, 5, 4, 3, 2]
                 = [1, 0x302, 0x403, 0x504, 0x605, 0x706, 7]
             \<and> map (\<lambda>i :: ee_u32. if i \<le> 2 then (ucast i :: ee_s16)
                       else ucast (0x3fff AND (push_bit 8 (i AND 7) OR (i XOR scast (0 :: ee_s16)))))
                   [1, 2, 3, 4, 5, 6, 7]
                 = [1, 2, 0x303, 0x404, 0x505, 0x606, 0x707]))"
  by code_simp

section \<open>The number of cells of the list\<close>

text \<open>
  C5, amended.  \<open>size\<close> is \<open>blksize / 20 - 2\<close>.  A block of \<open>20 (k + 5)\<close> to
  \<open>20 (k + 6) - 1\<close> bytes has \<open>size = k + 3\<close>, and \<open>core_list_init\<close> returns a list of
  \<open>k + 2\<close> cells: the head (rank 0, data \<open>0x8080\<close>), the tail (rank \<open>0x7fff\<close>, data
  \<open>0xffff\<close>) and exactly \<open>k = size - 3\<close> cells between them.  An insertion fails as
  soon as the cell after the next free one would be the end of the region, so one slot
  of each region stays unused, and head and tail take two more.
\<close>

theorem core_list_init_interior_count:
  assumes "20 * (k + 5) \<le> unat blksize" and "unat blksize < 20 * (k + 6)"
  shows "\<exists>l h ys. core_list_init blksize mb seed h0 = Some (l, h) \<and> is_list h l ys
           \<and> unat (list_size blksize) = k + 3
           \<and> mb \<in> set ys \<and> idx (dat h (info h mb)) = 0 \<and> data16 (dat h (info h mb)) = 0x8080
           \<and> mb + 1 \<in> set ys \<and> idx (dat h (info h (mb + 1))) = 0x7fff
           \<and> data16 (dat h (info h (mb + 1))) = 0xffff
           \<and> length ys = k + 2
           \<and> length (filter (\<lambda>a. a \<noteq> mb \<and> a \<noteq> mb + 1) ys) = k"
proof -
  define N where "N = unat blksize div 20 - 2"
  have dv: "unat blksize div 20 = k + 5" using assms by simp
  have N: "N = k + 3" using dv by (simp add: N_def)
  have big: "100 \<le> unat blksize" using assms(1) by simp
  have Nu: "unat (list_size blksize) = k + 3"
    using unat_list_size [of blksize] big dv by simp
  from core_list_init_built [OF big N_def, of mb seed h0]
  obtain s h5 l h ys where all: "init_items blksize mb seed h0 = Some s
           \<and> built s mb (mb + N) (N - 2)
           \<and> index_loop (list_size blksize) seed (hp s) (nxt (hp s) mb) 1 = Some h5
           \<and> nxt h5 = nxt (hp s) \<and> info h5 = info (hp s)
           \<and> (\<forall>j<N - 3. dat h5 (mb + N + 2 + (N - 4 - j))
                  = (dat (hp s) (mb + N + 2 + (N - 4 - j)))
                      \<lparr>idx := idx_rank (list_size blksize) seed (1 + of_nat j)\<rparr>)
           \<and> dat h5 (mb + N) = (dat h0 (mb + N))\<lparr>idx := 0, data16 := 0x8080\<rparr>
           \<and> dat h5 (mb + N + 1) = (dat h0 (mb + N + 1))\<lparr>data16 := 0xffff, idx := 0x7fff\<rparr>
           \<and> core_list_init blksize mb seed h0 = Some (l, h)
           \<and> is_list h l ys \<and> mset ys = mset (init_cells mb N)
           \<and> sorted_wrt (idx_le h) ys
           \<and> info h = info h5 \<and> dat h = dat h5
           \<and> (\<forall>a\<in>set ys. normalized (dat h (info h a)))"
    by (elim exE) (rule that)
  from all have s: "init_items blksize mb seed h0 = Some s"
    and b: "built s mb (mb + N) (N - 2)"
    and inf5: "info h5 = info (hp s)"
    and hd: "dat h5 (mb + N) = (dat h0 (mb + N))\<lparr>idx := 0, data16 := 0x8080\<rparr>"
    and tl: "dat h5 (mb + N + 1) = (dat h0 (mb + N + 1))\<lparr>data16 := 0xffff, idx := 0x7fff\<rparr>"
    and run: "core_list_init blksize mb seed h0 = Some (l, h)"
    and ly: "is_list h l ys" and ms: "mset ys = mset (init_cells mb N)"
    and infh: "info h = info h5" and dath: "dat h = dat h5"
    by simp_all
  from b have inf: "\<forall>j\<le>N - 2. info (hp s) (mb + j) = mb + N + j"
    by (simp add: built_def)
  have i0: "info h mb = mb + N" using inf inf5 infh by (metis add.right_neutral le0)
  have i1: "info h (mb + 1) = mb + N + 1"
  proof -
    have "(1 :: nat) \<le> N - 2" using N by simp
    with inf have "info (hp s) (mb + 1) = mb + N + 1" by blast
    then show ?thesis using inf5 infh by simp
  qed
  have cells: "init_cells mb N = mb # rev [mb + 2 ..< mb + N - 1] @ [mb + 1]"
  proof -
    have "mb + 1 < mb + N - 1" using N by simp
    then have "[mb + 1 ..< mb + N - 1] = (mb + 1) # [Suc (mb + 1) ..< mb + N - 1]"
      by (rule upt_conv_Cons)
    then have "[mb + 1 ..< mb + N - 1] = (mb + 1) # [mb + 2 ..< mb + N - 1]" by simp
    then show ?thesis by (simp only: init_cells_def rev.simps)
  qed
  have sets: "set ys = set (init_cells mb N)" using ms by (rule mset_eq_setD)
  have lrev: "length (rev [mb + 2 ..< mb + N - 1]) = k"
  proof -
    have "mb + N - 1 - (mb + 2) = k" unfolding N by arith
    then show ?thesis by (simp only: length_rev length_upt)
  qed
  have len: "length ys = k + 2"
  proof -
    have "length ys = length (init_cells mb N)" using ms by (metis size_mset)
    also have "\<dots> = length (rev [mb + 2 ..< mb + N - 1]) + 2" unfolding cells by simp
    also have "\<dots> = k + 2" by (simp only: lrev)
    finally show ?thesis .
  qed
  have "length (filter (\<lambda>a. a \<noteq> mb \<and> a \<noteq> mb + 1) ys)
          = size (filter_mset (\<lambda>a. a \<noteq> mb \<and> a \<noteq> mb + 1) (mset ys))"
    by (metis mset_filter size_mset)
  also have "\<dots> = length (filter (\<lambda>a. a \<noteq> mb \<and> a \<noteq> mb + 1) (init_cells mb N))"
    unfolding ms by (metis mset_filter size_mset)
  also have "\<dots> = length (rev [mb + 2 ..< mb + N - 1])"
  proof -
    have "filter (\<lambda>a. a \<noteq> mb \<and> a \<noteq> mb + 1) (rev [mb + 2 ..< mb + N - 1])
            = rev [mb + 2 ..< mb + N - 1]"
      by (rule filter_True) auto
    then show ?thesis unfolding cells by simp
  qed
  also have "\<dots> = k" by (rule lrev)
  finally have cnt: "length (filter (\<lambda>a. a \<noteq> mb \<and> a \<noteq> mb + 1) ys) = k" .
  show ?thesis
    using run ly Nu sets cells i0 i1 hd tl dath len cnt
    by (intro exI [of _ l] exI [of _ h] exI [of _ ys]) simp
qed

theorem core_list_init_interior_count_witness:
  "20 * (5 + 5) \<le> unat (200 :: ee_u32) \<and> unat (200 :: ee_u32) < 20 * (5 + 6)
   \<and> (\<exists>l h ys. core_list_init 200 0 0 blank_heap = Some (l, h) \<and> is_list h l ys
           \<and> unat (list_size 200) = 5 + 3
           \<and> 0 \<in> set ys \<and> idx (dat h (info h 0)) = 0 \<and> data16 (dat h (info h 0)) = 0x8080
           \<and> 0 + 1 \<in> set ys \<and> idx (dat h (info h (0 + 1))) = 0x7fff
           \<and> data16 (dat h (info h (0 + 1))) = 0xffff
           \<and> length ys = 5 + 2
           \<and> length (filter (\<lambda>a. a \<noteq> 0 \<and> a \<noteq> 0 + 1) ys) = 5)"
proof -
  have a: "20 * (5 + 5) \<le> unat (200 :: ee_u32)" by simp
  have b: "unat (200 :: ee_u32) < 20 * (5 + 6)" by simp
  from core_list_init_interior_count [OF a b, of 0 0 blank_heap] a b show ?thesis by blast
qed

text \<open>
  C5 as stated, on a block of 240 bytes: \<open>size\<close> is 10 and the list has seven cells
  between head and tail.
\<close>

theorem core_list_init_size_counterexample:
  "list_size 240 = 10
   \<and> (case core_list_init 240 0 0 blank_heap of
        None \<Rightarrow> False
      | Some (l, h) \<Rightarrow>
          is_list h l [0, 8, 2, 7, 6, 5, 4, 3, 1]
          \<and> records h [0, 1] = [\<lparr>data16 = 0x8080, idx = 0\<rparr>, \<lparr>data16 = 0xffff, idx = 0x7fff\<rparr>]
          \<and> length (filter (\<lambda>a. a \<noteq> 0 \<and> a \<noteq> 1) [0, 8, 2, 7, 6, 5, 4, 3, 1 :: nat]) = 7)"
  by code_simp

section \<open>Sorting a reversed list\<close>

lemma sint_inj16: "sint (a :: ee_s16) = sint b \<Longrightarrow> a = b"
  by (rule signed_word_eqI)

text \<open>
  Where the walk has given the cells pairwise distinct ranks, as the source intends,
  reversing the list and sorting it by \<open>cmp_idx\<close> and sorting it directly both return,
  and the two results have the same cells in the same order with the same records.
\<close>

lemma sort_after_reverse:
  assumes "100 \<le> unat blksize"
    and "core_list_init blksize mb seed h0 = Some (l, h)"
    and "is_list h l ys"
    and "distinct (map idx (records h ys))"
  shows "\<exists>l1 h1 l2 h2 l3 h3 zs.
           core_list_reverse h l = Some (l1, h1)
           \<and> core_list_mergesort h1 l1 cmp_idx (None :: unit option) = Some (l2, h2, None)
           \<and> core_list_mergesort h l cmp_idx (None :: unit option) = Some (l3, h3, None)
           \<and> is_list h2 l2 zs \<and> is_list h3 l3 zs
           \<and> records h2 zs = records h3 zs"
proof -
  define N where "N = unat blksize div 20 - 2"
  from core_list_init_built [OF assms(1) N_def, of mb seed h0]
  obtain s h5 l' h' ys' where all: "init_items blksize mb seed h0 = Some s
           \<and> built s mb (mb + N) (N - 2)
           \<and> index_loop (list_size blksize) seed (hp s) (nxt (hp s) mb) 1 = Some h5
           \<and> nxt h5 = nxt (hp s) \<and> info h5 = info (hp s)
           \<and> (\<forall>j<N - 3. dat h5 (mb + N + 2 + (N - 4 - j))
                  = (dat (hp s) (mb + N + 2 + (N - 4 - j)))
                      \<lparr>idx := idx_rank (list_size blksize) seed (1 + of_nat j)\<rparr>)
           \<and> dat h5 (mb + N) = (dat h0 (mb + N))\<lparr>idx := 0, data16 := 0x8080\<rparr>
           \<and> dat h5 (mb + N + 1) = (dat h0 (mb + N + 1))\<lparr>data16 := 0xffff, idx := 0x7fff\<rparr>
           \<and> core_list_init blksize mb seed h0 = Some (l', h')
           \<and> is_list h' l' ys' \<and> mset ys' = mset (init_cells mb N)
           \<and> sorted_wrt (idx_le h') ys'
           \<and> info h' = info h5 \<and> dat h' = dat h5
           \<and> (\<forall>a\<in>set ys'. normalized (dat h' (info h' a)))"
    by (elim exE) (rule that)
  then have run': "core_list_init blksize mb seed h0 = Some (l', h')"
    and ly0: "is_list h' l' ys'" and ms: "mset ys' = mset (init_cells mb N)"
    and nrm0: "\<forall>a\<in>set ys'. normalized (dat h' (info h' a))"
    by blast+
  have eq: "l' = l" "h' = h" using run' assms(2) by simp_all
  have ly': "is_list h l ys'" using ly0 by (simp only: eq)
  have nrm': "\<forall>a\<in>set ys'. normalized (dat h (info h a))" using nrm0 by (simp only: eq)
  have ys: "ys' = ys"
    using ly' assms(3) chain_unique unfolding is_list_def by blast
  have nrm: "\<forall>a\<in>set ys. normalized (dat h (info h a))" using nrm' ys by simp
  have d: "distinct ys" using assms(3) by (simp add: is_list_def)
  have lenN: "N \<le> 2 ^ 32 div 20"
  proof -
    have "unat blksize < 2 ^ 32" using unsigned_less [of blksize] by simp
    then show ?thesis by (simp add: N_def)
  qed
  have "length ys = length (init_cells mb N)" using ms ys by (metis size_mset)
  also have "\<dots> \<le> N"
  proof -
    have "3 \<le> N" using assms(1) unfolding N_def by arith
    then show ?thesis by (simp add: init_cells_def)
  qed
  finally have len: "int (length ys) \<le> s32_max" using lenN by (simp add: s32_max_def)
  have ne: "ys \<noteq> []"
    using ms ys by (auto simp: init_cells_def)
  from core_list_reverse_correct [OF assms(3)]
  obtain l1 h1 where rv: "core_list_reverse h l = Some (l1, h1)"
    and l1: "is_list h1 l1 (rev ys)" and inf1: "info h1 = info h" and dat1: "dat h1 = dat h"
    by blast
  have le1: "idx_le h1 = idx_le h" by (simp add: idx_le_def [abs_def] inf1 dat1)
  have nrm1: "\<forall>a\<in>set (rev ys). normalized (dat h1 (info h1 a))"
    using nrm inf1 dat1 by simp
  have len1: "int (length (rev ys)) \<le> s32_max" using len by simp
  have ne1: "rev ys \<noteq> []" using ne by simp
  from mergesort_correct [OF l1 ne1 len1 pure_on_cmp_idx [OF nrm1] total_preorder_idx_le]
  obtain l2 h2 zs2 where m2: "core_list_mergesort h1 l1 cmp_idx (None :: unit option) = Some (l2, h2, None)"
    and lz2: "is_list h2 l2 zs2" and ms2: "mset zs2 = mset (rev ys)"
    and so2: "sorted_wrt (idx_le h1) zs2"
    and inf2: "info h2 = info h1" and dat2: "dat h2 = dat h1"
    by blast
  from mergesort_correct [OF assms(3) ne len pure_on_cmp_idx [OF nrm] total_preorder_idx_le]
  obtain l3 h3 zs3 where m3: "core_list_mergesort h l cmp_idx (None :: unit option) = Some (l3, h3, None)"
    and lz3: "is_list h3 l3 zs3" and ms3: "mset zs3 = mset ys"
    and so3: "sorted_wrt (idx_le h) zs3"
    and inf3: "info h3 = info h" and dat3: "dat h3 = dat h"
    by blast
  have anti: "a = b" if "a \<in> set zs2" "b \<in> set zs2" "idx_le h a b" "idx_le h b a" for a b
  proof -
    have ab: "a \<in> set ys" "b \<in> set ys"
      using that(1,2) mset_eq_setD [OF ms2] by simp_all
    from that(3,4) have "idx (dat h (info h a)) = idx (dat h (info h b))"
      by (intro sint_inj16) (simp add: idx_le_def)
    moreover have "inj_on (\<lambda>a. idx (dat h (info h a))) (set ys)"
      using assms(4) d by (simp add: records_def distinct_map comp_def)
    ultimately show ?thesis using ab by (simp add: inj_on_def)
  qed
  have dz2: "distinct zs2" using lz2 by (simp add: is_list_def)
  have "zs2 = zs3"
    using so2 [unfolded le1] so3 _ anti dz2
    by (rule sorted_perm_unique) (simp_all add: ms2 ms3)
  then have "records h2 zs2 = records h3 zs2" "is_list h3 l3 zs2"
    using lz3 inf2 dat2 inf3 dat3 inf1 dat1 by (simp_all add: records_def)
  with rv m2 m3 lz2 show ?thesis by blast
qed

text \<open>On a block of 240 bytes with seed 0 the ranks are pairwise distinct.\<close>

lemma sort_after_reverse_seed0:
  "100 \<le> unat (240 :: ee_u32)
   \<and> (case core_list_init 240 0 0 blank_heap of
        None \<Rightarrow> False
      | Some (l, h) \<Rightarrow>
          is_list h l [0, 8, 2, 7, 6, 5, 4, 3, 1]
          \<and> distinct (map idx (records h [0, 8, 2, 7, 6, 5, 4, 3, 1]))
          \<and> (\<exists>l1 h1 l2 h2 l3 h3 zs.
               core_list_reverse h l = Some (l1, h1)
               \<and> core_list_mergesort h1 l1 cmp_idx (None :: unit option) = Some (l2, h2, None)
               \<and> core_list_mergesort h l cmp_idx (None :: unit option) = Some (l3, h3, None)
               \<and> is_list h2 l2 zs \<and> is_list h3 l3 zs
               \<and> records h2 zs = records h3 zs))"
proof -
  have a: "100 \<le> unat (240 :: ee_u32)" by simp
  have b: "case core_list_init 240 0 0 blank_heap of
        None \<Rightarrow> False
      | Some (l, h) \<Rightarrow>
          is_list h l [0, 8, 2, 7, 6, 5, 4, 3, 1]
          \<and> distinct (map idx (records h [0, 8, 2, 7, 6, 5, 4, 3, 1]))"
    by code_simp
  then obtain l h where run: "core_list_init 240 0 0 blank_heap = Some (l, h)"
    and ly: "is_list h l [0, 8, 2, 7, 6, 5, 4, 3, 1]"
    and d: "distinct (map idx (records h [0, 8, 2, 7, 6, 5, 4, 3, 1]))"
    by (auto split: option.splits)
  from sort_after_reverse [OF a run ly d] a ly d show ?thesis
    by (simp only: run option.case prod.case simp_thms)
qed

text \<open>
  The sort by \<open>cmp_idx\<close> is the stable sort of the cells by their rank.
\<close>

definition idx_key :: "heap \<Rightarrow> nat \<Rightarrow> int" where
  "idx_key h a = sint (idx (dat h (info h a)))"

lemma mergesort_cmp_idx:
  assumes "is_list h list xs" and "xs \<noteq> []" and "int (length xs) \<le> s32_max"
    and "\<forall>a\<in>set xs. normalized (dat h (info h a))"
  shows "\<exists>l' h'. core_list_mergesort h list cmp_idx (None :: unit option) = Some (l', h', None)
           \<and> is_list h' l' (sort_key (idx_key h) xs)
           \<and> info h' = info h \<and> dat h' = dat h"
proof -
  from mergesort_correct [OF assms(1-3) pure_on_cmp_idx [OF assms(4)] total_preorder_idx_le]
  obtain l' h' ys where m: "core_list_mergesort h list cmp_idx (None :: unit option) = Some (l', h', None)"
    and ly: "is_list h' l' ys" and ms: "mset ys = mset xs"
    and so: "sorted_wrt (idx_le h) ys"
    and st: "\<forall>z. filter (equiv_to (idx_le h) z) ys = filter (equiv_to (idx_le h) z) xs"
    and fr: "info h' = info h" "dat h' = dat h"
    by blast
  have eqv: "equiv_to (idx_le h) z = (\<lambda>x. idx_key h z = idx_key h x)" for z
    by (auto simp: equiv_to_def idx_le_def idx_key_def fun_eq_iff)
  have "sorted (map (idx_key h) ys)"
    using so by (simp add: sorted_map idx_le_def [abs_def] idx_key_def [abs_def])
  with ms st have "sort_key (idx_key h) xs = ys"
    by (intro properties_for_sort_key) (simp_all add: eqv)
  with m ly fr show ?thesis by simp
qed

text \<open>
  C8.  On a block of 240 bytes with seed 7 the walk of \<open>core_list_init\<close> gives the
  cell visited with \<open>i = 7\<close> the rank \<open>0x3fff AND (push_bit 8 (8 AND 7) OR (7 XOR 7)) = 0\<close>,
  the rank of the head, where the source means the mixed ranks to come after the ranks
  in sequence and the head to be always first.  The sort is stable: it keeps the head
  first in the list as built and puts the other cell of rank 0 in front of the head in
  the reversed list.  The two sorts return different sequences of records, and after
  the reversal the sorted list does not start with the head.
\<close>

theorem sort_after_reverse_seed7:
  "\<exists>l h l1 h1 l2 h2 l3 h3.
      core_list_init 240 0 7 blank_heap = Some (l, h)
      \<and> core_list_mergesort h l cmp_idx (None :: unit option) = Some (l3, h3, None)
      \<and> core_list_reverse h l = Some (l1, h1)
      \<and> core_list_mergesort h1 l1 cmp_idx (None :: unit option) = Some (l2, h2, None)
      \<and> is_list h3 l3 [0, 2, 8, 7, 6, 5, 4, 3, 1]
      \<and> is_list h2 l2 [2, 0, 8, 7, 6, 5, 4, 3, 1]
      \<and> map idx (records h3 [0, 2]) = [0, 0]
      \<and> map data16 (records h3 [0, 2, 8, 7, 6, 5, 4, 3, 1])
           = [0x8080, 0x3838, 0x0e0e, 0x1515, 0x1c1c, 0x2323, 0x2a2a, 0x3131, 0xffff]
      \<and> map data16 (records h2 [2, 0, 8, 7, 6, 5, 4, 3, 1])
           = [0x3838, 0x8080, 0x0e0e, 0x1515, 0x1c1c, 0x2323, 0x2a2a, 0x3131, 0xffff]"
proof -
  let ?ys = "[0, 2, 8, 7, 6, 5, 4, 3, 1] :: nat list"
  have "case core_list_init 240 0 7 blank_heap of
        None \<Rightarrow> False
      | Some (l, h) \<Rightarrow>
          is_list h l [0, 2, 8, 7, 6, 5, 4, 3, 1]
          \<and> map idx (records h [0, 2, 8, 7, 6, 5, 4, 3, 1])
              = [0, 0, 1, 0x305, 0x404, 0x503, 0x602, 0x701, 0x7fff]
          \<and> map data16 (records h [0, 2, 8, 7, 6, 5, 4, 3, 1])
              = [0x8080, 0x3838, 0x0e0e, 0x1515, 0x1c1c, 0x2323, 0x2a2a, 0x3131, 0xffff]"
    by code_simp
  then obtain l h where run: "core_list_init 240 0 7 blank_heap = Some (l, h)"
    and ly: "is_list h l ?ys"
    and ix: "map idx (records h ?ys) = [0, 0, 1, 0x305, 0x404, 0x503, 0x602, 0x701, 0x7fff]"
    and dt: "map data16 (records h ?ys)
               = [0x8080, 0x3838, 0x0e0e, 0x1515, 0x1c1c, 0x2323, 0x2a2a, 0x3131, 0xffff]"
    by (auto split: option.splits)
  have nrm: "\<forall>a\<in>set ?ys. normalized (dat h (info h a))"
    using dt by (simp add: records_def normalized_def regen_data_def)
  have key: "map (idx_key h) ?ys = [0, 0, 1, 0x305, 0x404, 0x503, 0x602, 0x701, 0x7fff]"
    using ix by (simp add: records_def idx_key_def)
  have s3: "sort_key (idx_key h) ?ys = ?ys"
    using key by (simp add: sort_key_def)
  have s2: "sort_key (idx_key h) (rev ?ys) = [2, 0, 8, 7, 6, 5, 4, 3, 1]"
    using key by (simp add: sort_key_def)
  have len: "int (length ?ys) \<le> s32_max" by (simp add: s32_max_def)
  from mergesort_cmp_idx [OF ly _ len nrm]
  obtain l3 h3 where m3: "core_list_mergesort h l cmp_idx (None :: unit option) = Some (l3, h3, None)"
    and l3: "is_list h3 l3 ?ys" and f3: "info h3 = info h" "dat h3 = dat h"
    unfolding s3 by auto
  from core_list_reverse_correct [OF ly]
  obtain l1 h1 where rv: "core_list_reverse h l = Some (l1, h1)"
    and l1: "is_list h1 l1 (rev ?ys)" and f1: "info h1 = info h" "dat h1 = dat h"
    by blast
  have k1: "idx_key h1 = idx_key h" by (simp add: idx_key_def [abs_def] f1)
  have nrm1: "\<forall>a\<in>set (rev ?ys). normalized (dat h1 (info h1 a))"
    using nrm unfolding f1 by simp
  have len1: "int (length (rev ?ys)) \<le> s32_max" by (simp add: s32_max_def)
  from mergesort_cmp_idx [OF l1 _ len1 nrm1]
  obtain l2 h2 where m2: "core_list_mergesort h1 l1 cmp_idx (None :: unit option) = Some (l2, h2, None)"
    and l2: "is_list h2 l2 [2, 0, 8, 7, 6, 5, 4, 3, 1]"
    and f2: "info h2 = info h1" "dat h2 = dat h1"
    unfolding k1 s2 by auto
  have r3: "records h3 = records h" and r2: "records h2 = records h"
    by (simp_all add: records_def [abs_def] f1 f2 f3)
  have a: "map idx (records h3 [0, 2]) = [0, 0]"
    using ix unfolding r3 by (simp add: records_def)
  have b: "map data16 (records h3 ?ys)
           = [0x8080, 0x3838, 0x0e0e, 0x1515, 0x1c1c, 0x2323, 0x2a2a, 0x3131, 0xffff]"
    using dt unfolding r3 .
  have c: "map data16 (records h2 [2, 0, 8, 7, 6, 5, 4, 3, 1])
           = [0x3838, 0x8080, 0x0e0e, 0x1515, 0x1c1c, 0x2323, 0x2a2a, 0x3131, 0xffff]"
    using dt unfolding r2 by (simp add: records_def)
  show ?thesis
  proof (intro exI conjI)
    show "core_list_init 240 0 7 blank_heap = Some (l, h)" by (rule run)
    show "core_list_mergesort h l cmp_idx (None :: unit option) = Some (l3, h3, None)" by (rule m3)
    show "core_list_reverse h l = Some (l1, h1)" by (rule rv)
    show "core_list_mergesort h1 l1 cmp_idx (None :: unit option) = Some (l2, h2, None)" by (rule m2)
    show "is_list h3 l3 [0, 2, 8, 7, 6, 5, 4, 3, 1]" by (rule l3)
    show "is_list h2 l2 [2, 0, 8, 7, 6, 5, 4, 3, 1]" by (rule l2)
    show "map idx (records h3 [0, 2]) = [0, 0]" by (rule a)
    show "map data16 (records h3 [0, 2, 8, 7, 6, 5, 4, 3, 1])
           = [0x8080, 0x3838, 0x0e0e, 0x1515, 0x1c1c, 0x2323, 0x2a2a, 0x3131, 0xffff]" by (rule b)
    show "map data16 (records h2 [2, 0, 8, 7, 6, 5, 4, 3, 1])
           = [0x3838, 0x8080, 0x0e0e, 0x1515, 0x1c1c, 0x2323, 0x2a2a, 0x3131, 0xffff]" by (rule c)
  qed
qed

section \<open>The scans fold the record of the head\<close>

text \<open>
  A scan that starts at \<open>finder\<close>, with the chain \<open>ps\<close> from there to the end of the
  list, returns; its result is \<open>crc16\<close> applied to the running value once for every
  cell of \<open>ps\<close>, each time with the \<open>data16\<close> of the record of the head \<open>l\<close>.  No record
  of a visited cell is read.  Conversely a scan that returns has walked such a chain.
\<close>

lemma crc_scan_folds_head:
  assumes "chain (nxt h) finder ps None"
  shows "crc_scan h (Some l) finder retval
           = Some ((crc16 (data16 (dat h (info h l))) ^^ length ps) retval)"
  using assms
proof (induction ps arbitrary: finder retval)
  case Nil
  then show ?case by (subst crc_scan.simps) simp
next
  case (Cons a ps)
  from Cons.prems have f: "finder = Some a" and ch: "chain (nxt h) (nxt h a) ps None"
    by simp_all
  show ?case
    by (subst crc_scan.simps) (simp add: f Cons.IH [OF ch] funpow_swap1)
qed

lemma crc_scan_returns:
  assumes "crc_scan h0 list0 finder0 retval0 = Some r0"
  shows "\<exists>ps. chain (nxt h0) finder0 ps None
            \<and> (\<forall>l. list0 = Some l
                  \<longrightarrow> r0 = (crc16 (data16 (dat h0 (info h0 l))) ^^ length ps) retval0)"
proof (rule crc_scan.raw_induct [where P = "\<lambda>h list finder retval r.
          \<exists>ps. chain (nxt h) finder ps None
            \<and> (\<forall>l. list = Some l
                  \<longrightarrow> r = (crc16 (data16 (dat h (info h l))) ^^ length ps) retval)", OF _ assms])
  fix scan :: "heap \<Rightarrow> ptr \<Rightarrow> ptr \<Rightarrow> ee_u16 \<Rightarrow> ee_u16 option" and h list finder retval r
  assume IH: "\<And>h list finder retval r. scan h list finder retval = Some r
          \<Longrightarrow> \<exists>ps. chain (nxt h) finder ps None
            \<and> (\<forall>l. list = Some l
                  \<longrightarrow> r = (crc16 (data16 (dat h (info h l))) ^^ length ps) retval)"
    and step: "(case finder of
                  None \<Rightarrow> Some retval
                | Some f \<Rightarrow>
                    (case list of
                       None \<Rightarrow> None
                     | Some l \<Rightarrow> scan h list (nxt h f) (crc16 (data16 (dat h (info h l))) retval)))
               = Some r"
  show "\<exists>ps. chain (nxt h) finder ps None
            \<and> (\<forall>l. list = Some l
                  \<longrightarrow> r = (crc16 (data16 (dat h (info h l))) ^^ length ps) retval)"
  proof (cases finder)
    case None
    with step have "r = retval" by simp
    with None show ?thesis by (intro exI [of _ "[]"]) simp
  next
    case (Some f)
    with step obtain l where l: "list = Some l"
      and run: "scan h list (nxt h f) (crc16 (data16 (dat h (info h l))) retval) = Some r"
      by (auto split: option.splits)
    from IH [OF run] l obtain ps where ch: "chain (nxt h) (nxt h f) ps None"
      and r: "r = (crc16 (data16 (dat h (info h l))) ^^ length ps)
                    (crc16 (data16 (dat h (info h l))) retval)"
      by auto
    show ?thesis using Some l ch r
      by (intro exI [of _ "f # ps"]) (simp add: funpow_swap1)
  qed
qed

text \<open>
  The first loop of \<open>core_bench_list\<close> keeps the cells of the list and their records:
  \<open>core_list_find\<close> returns the first matching cell of the list, \<open>core_list_reverse\<close>
  relinks the cells, and moving the successor of the found cell behind the head relinks
  three of them.
\<close>

lemma core_list_find_first:
  assumes "is_list h list as"
  shows "core_list_find h list crit = Some (List.find (matches h crit) as)"
proof -
  from assms have ch: "chain (nxt h) list as None" by (simp add: is_list_def)
  show ?thesis
    unfolding core_list_find_loop
    by (rule find_loop_result [OF ch]) simp_all
qed

lemma find_in_list: "List.find P as = Some a \<Longrightarrow> a \<in> set as"
  by (auto simp: find_Some_iff)

lemma chain_from_cell:
  assumes "chain nx p as None" and "a \<in> set as"
  shows "\<exists>ps. chain nx (Some a) ps None"
proof -
  from assms(2) obtain bs cs where "as = bs @ a # cs" by (auto dest: split_list)
  with assms(1) have "chain nx (Some a) (a # cs) None"
    by (auto simp: chain_append)
  then show ?thesis ..
qed

lemma move_behind_head:
  assumes "is_list h (Some l) zs" and "tf \<in> set zs" and "nxt h tf = Some fd"
  shows "\<exists>zs'. is_list (h\<lparr>nxt := (((nxt h)(tf := nxt h fd))
                                    (fd := ((nxt h)(tf := nxt h fd)) l))(l := Some fd)\<rparr>)
                  (Some l) zs'
              \<and> mset zs' = mset zs"
proof -
  let ?nx = "nxt h"
  let ?nx1 = "?nx(tf := ?nx fd)"
  let ?nx3 = "(?nx1(fd := ?nx1 l))(l := Some fd)"
  from assms(1) have ch: "chain ?nx (Some l) zs None" and d: "distinct zs"
    by (simp_all add: is_list_def)
  from ch obtain rest where zs: "zs = l # rest" and chr: "chain ?nx (?nx l) rest None"
    by (cases zs) auto
  have fdne: "fd \<noteq> tf"
    using chain_no_self_loop [OF ch d assms(2)] assms(3) by auto
  show ?thesis
  proof (cases "tf = l")
    case True
    have "?nx3 = ?nx"
      using True assms(3) fdne by (auto simp: fun_eq_iff)
    then have "h\<lparr>nxt := ?nx3\<rparr> = h" by simp
    with assms(1) show ?thesis by (intro exI [of _ zs]) simp
  next
    case False
    with assms(2) zs have "tf \<in> set rest" by simp
    then obtain A C where rest: "rest = A @ tf # C" by (auto dest: split_list)
    from chr rest have chA: "chain ?nx (?nx l) A (Some tf)" and chC: "chain ?nx (?nx tf) C None"
      by (auto simp: chain_append)
    from chC assms(3) obtain B where C: "C = fd # B" and chB: "chain ?nx (?nx fd) B None"
      by (cases C) auto
    have dd: "distinct (l # A @ tf # fd # B)" using d zs rest C by simp
    have nA: "tf \<notin> set A" "fd \<notin> set A" "l \<notin> set A"
      and nB: "tf \<notin> set B" "fd \<notin> set B" "l \<notin> set B"
      and ne: "l \<noteq> tf" "l \<noteq> fd"
      using dd by auto
    have chA3: "chain ?nx3 (?nx l) A (Some tf)"
      using chA nA by (simp add: chain_update_other)
    have chB3: "chain ?nx3 (?nx fd) B None"
      using chB nB by (simp add: chain_update_other)
    have l3: "?nx3 l = Some fd" by simp
    have fd3: "?nx3 fd = ?nx l" using ne fdne by simp
    have tf3: "?nx3 tf = ?nx fd" using ne fdne by simp
    have "chain ?nx3 (Some l) (l # fd # A @ tf # B) None"
      using chA3 chB3 l3 fd3 tf3 by (simp add: chain_append)
    moreover have "distinct (l # fd # A @ tf # B)" using dd by auto
    moreover have "mset (l # fd # A @ tf # B) = mset zs" using zs rest C by simp
    ultimately show ?thesis
      by (intro exI [of _ "l # fd # A @ tf # B"]) (simp add: is_list_def)
  qed
qed

text \<open>
  \<open>bench_inv\<close>: the list of the state consists of the cells \<open>xs\<close> in some order, with
  the records and the ownership of the memory \<open>h\<close>.  The loop counter stays below
  \<open>find_num\<close>, so its increment does not overflow and the loop ends.
\<close>

definition bench_inv :: "heap \<Rightarrow> nat list \<Rightarrow> bench_state \<Rightarrow> bool" where
  "bench_inv h xs s =
     (\<exists>ys. is_list (b_heap s) (b_list s) ys \<and> mset ys = mset xs
           \<and> info (b_heap s) = info h \<and> dat (b_heap s) = dat h)"

lemma bench_find_step_inv:
  assumes "bench_inv h xs s" and "2 \<le> length xs"
  shows "\<exists>s'. bench_find_step s = Some s' \<and> bench_inv h xs s' \<and> b_i s' = b_i s"
proof -
  from assms(1) obtain ys where ly: "is_list (b_heap s) (b_list s) ys"
    and ms: "mset ys = mset xs"
    and fr: "info (b_heap s) = info h" "dat (b_heap s) = dat h"
    unfolding bench_inv_def by blast
  let ?info1 = "(b_info s)\<lparr>data16 := b_i s AND 0xff\<rparr>"
  have fnd: "core_list_find (b_heap s) (b_list s) ?info1
               = Some (List.find (matches (b_heap s) ?info1) ys)"
    using ly by (rule core_list_find_first)
  from core_list_reverse_correct [OF ly]
  obtain list1 h1 where rv: "core_list_reverse (b_heap s) (b_list s) = Some (list1, h1)"
    and l1: "is_list h1 list1 (rev ys)"
    and fr1: "info h1 = info (b_heap s)" "dat h1 = dat (b_heap s)"
    by blast
  have len: "2 \<le> length (rev ys)" using assms(2) ms by (metis length_rev size_mset)
  then obtain l n rest where ry: "rev ys = l # n # rest"
    by (cases "rev ys"; cases "tl (rev ys)") auto
  with l1 have hd: "list1 = Some l" and nl: "nxt h1 l = Some n"
    by (auto simp: is_list_def)
  have msr: "mset (rev ys) = mset xs" using ms by simp
  show ?thesis
  proof (cases "List.find (matches (b_heap s) ?info1) ys")
    case None
    have "bench_inv h xs (s\<lparr>b_heap := h1, b_list := list1, b_info := inf2,
            b_missed := m, b_retval := r\<rparr>)" for inf2 m r
      unfolding bench_inv_def using l1 msr fr fr1 by auto
    then show ?thesis
      using fnd rv None hd nl by (simp add: bench_find_step_def Let_def)
  next
    case (Some tf)
    then have tfin: "tf \<in> set (rev ys)" by (auto dest: find_in_list)
    show ?thesis
    proof (cases "nxt h1 tf")
      case None
      have "bench_inv h xs (s\<lparr>b_heap := h1, b_list := list1, b_info := inf2,
              b_found := m, b_retval := r\<rparr>)" for inf2 m r
        unfolding bench_inv_def using l1 msr fr fr1 by auto
      then show ?thesis
        using fnd rv Some None by (simp add: bench_find_step_def Let_def)
    next
      case fd: (Some fd)
      from move_behind_head [OF l1 [unfolded hd] tfin fd]
      obtain zs' where lz: "is_list (h1\<lparr>nxt := (((nxt h1)(tf := nxt h1 fd))
                                    (fd := ((nxt h1)(tf := nxt h1 fd)) l))(l := Some fd)\<rparr>)
                  (Some l) zs'"
        and mz: "mset zs' = mset (rev ys)"
        by blast
      have "bench_inv h xs (s\<lparr>b_heap := h1, b_list := list1, b_info := inf2,
              b_found := m, b_retval := r,
              b_heap := h1\<lparr>nxt := (((nxt h1)(tf := nxt h1 fd))
                                    (fd := ((nxt h1)(tf := nxt h1 fd)) l))(l := Some fd)\<rparr>\<rparr>)"
        for inf2 m r
        unfolding bench_inv_def using lz mz msr fr fr1 hd by auto
      then show ?thesis
        using fnd rv Some fd hd by (simp add: bench_find_step_def Let_def)
    qed
  qed
qed

lemma sint_succ16:
  fixes i n :: ee_s16
  assumes "sint i < sint n"
  shows "sint (i + 1) = sint i + 1"
proof -
  have "sint n < 2 ^ 15" using sint_lt [of n] by simp
  with assms have up: "sint i + 1 < 2 ^ 15" by simp
  have lo: "- (2 ^ 15) \<le> sint i + 1" using sint_ge [of i] by simp
  have "sint (i + 1) = signed_take_bit 15 (sint i + 1)"
    by (simp add: sint_word_ariths)
  also have "\<dots> = sint i + 1"
    using lo up by (intro signed_take_bit_int_eq_self) simp_all
  finally show ?thesis .
qed

lemma bench_find_loop_total:
  assumes "bench_inv h xs s" and "2 \<le> length xs"
  shows "\<exists>s'. bench_find_loop find_num s = Some s' \<and> bench_inv h xs s'"
  using assms(1)
proof (induction "nat (sint find_num - sint (b_i s))" arbitrary: s rule: less_induct)
  case less
  show ?case
  proof (cases "sint (b_i s) < sint find_num")
    case False
    then show ?thesis using less.prems by (subst bench_find_loop.simps) simp
  next
    case True
    from bench_find_step_inv [OF less.prems assms(2)]
    obtain s1 where st: "bench_find_step s = Some s1" and inv1: "bench_inv h xs s1"
      and i1: "b_i s1 = b_i s"
      by blast
    let ?s2 = "s1\<lparr>b_i := b_i s1 + 1\<rparr>"
    have inv2: "bench_inv h xs ?s2" using inv1 by (simp add: bench_inv_def)
    have "sint (b_i ?s2) = sint (b_i s) + 1" using sint_succ16 [OF True] i1 by simp
    with True have "nat (sint find_num - sint (b_i ?s2)) < nat (sint find_num - sint (b_i s))"
      by simp
    from less.hyps [OF this inv2]
    obtain s' where "bench_find_loop find_num ?s2 = Some s'" "bench_inv h xs s'" by blast
    then show ?thesis using True st by (subst bench_find_loop.simps) simp
  qed
qed

text \<open>
  On a list of at least three cells every step of \<open>core_bench_list\<close> returns: the two
  sorts, the remove of the successor of the head and its undo, the find and the two
  scans.
\<close>

lemma mergesort_returns:
  assumes "is_list h list xs" and "xs \<noteq> []" and "length xs < 2 ^ 31"
    and "ordering_cmp cmp (info h ` set xs) settled le"
  shows "\<exists>l' h' res' ys. core_list_mergesort h list cmp res = Some (Some l', h', res')
           \<and> is_list h' (Some l') ys \<and> mset ys = mset xs"
proof -
  have len: "int (length xs) \<le> s32_max" using assms(3) by (simp add: s32_max_def)
  have cmp: "cmp_on cmp (info h) (set xs) (\<lambda>d res. True)
               (\<lambda>d res a. settled d res (info h a)) (\<lambda>d res a b. le d res (info h a) (info h b))"
    using assms(4) by (rule ordering_cmp_on)
  from mergesort_general [OF assms(1,2) len cmp, of res]
  obtain l' h' res' ys where r: "core_list_mergesort h list cmp res = Some (l', h', res')"
    and l: "is_list h' l' ys" and ms: "mset ys = mset xs"
    by blast
  from ms assms(2) have "ys \<noteq> []" by auto
  with l obtain a where "l' = Some a" by (cases ys) (auto simp: is_list_def)
  with r l ms show ?thesis by blast
qed

lemma core_bench_list_returns:
  assumes "is_list h list xs" and "3 \<le> length xs" and "length xs < 2 ^ 31"
    and "ordering_cmp cmplx (info h ` set xs) settled le"
  shows "\<exists>retval h' res'.
           core_bench_list cmplx h list seed3 data0 res finder_idx = Some (retval, h', res')"
proof -
  let ?s0 = "\<lparr>b_heap = h, b_list = list, b_info = \<lparr>data16 = data0, idx = finder_idx\<rparr>,
              b_retval = 0, b_found = 0, b_missed = 0, b_i = 0\<rparr>"
  have inv0: "bench_inv h xs ?s0" using assms(1) by (auto simp: bench_inv_def)
  have two: "2 \<le> length xs" using assms(2) by simp
  from bench_find_loop_total [OF inv0 two, of seed3]
  obtain s where lp: "bench_find_loop seed3 ?s0 = Some s" and inv: "bench_inv h xs s" by blast
  from inv obtain ys where ly: "is_list (b_heap s) (b_list s) ys" and ms: "mset ys = mset xs"
    and fr: "info (b_heap s) = info h"
    unfolding bench_inv_def by blast
  have sets: "set ys = set xs" using ms by (rule mset_eq_setD)
  have leny: "length ys = length xs" using ms by (rule mset_eq_length)
  have yne: "ys \<noteq> []" using leny assms(2) by auto
  let ?rv1 = "b_retval s + (b_found s * 4 - b_missed s)"
  let ?srt = "if 0 < sint finder_idx
        then core_list_mergesort (b_heap s) (b_list s) cmplx res
        else Some (b_list s, b_heap s, res)"
  have "\<exists>l1 h1 res1 ys1. ?srt = Some (Some l1, h1, res1) \<and> is_list h1 (Some l1) ys1
          \<and> mset ys1 = mset xs"
  proof (cases "0 < sint finder_idx")
    case True
    have oc: "ordering_cmp cmplx (info (b_heap s) ` set ys) settled le"
      using assms(4) fr sets by simp
    have "length ys < 2 ^ 31" using assms(3) leny by simp
    from mergesort_returns [OF ly yne this oc, of res] True ms show ?thesis by auto
  next
    case False
    from ly yne obtain a where "b_list s = Some a" by (cases ys) (auto simp: is_list_def)
    with False ly ms show ?thesis by auto
  qed
  then obtain l1 h1 res1 ys1 where srt: "?srt = Some (Some l1, h1, res1)"
    and l1: "is_list h1 (Some l1) ys1" and ms1: "mset ys1 = mset xs"
    by blast
  have len1: "length ys1 = length xs" using ms1 by (rule mset_eq_length)
  from l1 have ch1: "chain (nxt h1) (Some l1) ys1 None" and d1: "distinct ys1"
    by (simp_all add: is_list_def)
  from len1 assms(2) obtain a it ret rest where ys1: "ys1 = a # it # ret # rest"
    by (cases ys1; cases "tl ys1"; cases "tl (tl ys1)") auto
  with ch1 have a: "a = l1" and n1: "nxt h1 l1 = Some it" and n2: "nxt h1 it = Some ret"
    and chr: "chain (nxt h1) (nxt h1 ret) rest None"
    by auto
  have dd: "distinct (l1 # it # ret # rest)" using d1 ys1 a by simp
  let ?nx2 = "((nxt h1)(it := nxt h1 ret))(ret := None)"
  let ?h2 = "h1\<lparr>nxt := ?nx2, info := ((info h1)(it := info h1 ret))(ret := info h1 it)\<rparr>"
  have rm: "core_list_remove h1 (nxt h1 l1) = Some (Some ret, ?h2)"
    using n1 n2 by (simp add: core_list_remove_def Let_def)
  have chr2: "chain ?nx2 (nxt h1 ret) rest None"
    using chr dd by (simp add: chain_update_other)
  have n21: "nxt ?h2 l1 = Some it" using n1 dd by simp
  have l2: "is_list ?h2 (Some l1) (l1 # it # rest)"
    using chr2 n1 dd by (simp add: is_list_def)
  have fd: "core_list_find ?h2 (Some l1) (b_info s)
              = Some (List.find (matches ?h2 (b_info s)) (l1 # it # rest))"
    using l2 by (rule core_list_find_first)
  let ?found = "List.find (matches ?h2 (b_info s)) (l1 # it # rest)"
  let ?finder = "if ?found = None then nxt ?h2 l1 else ?found"
  have "\<exists>ps. chain (nxt ?h2) ?finder ps None"
  proof (cases ?found)
    case None
    from l2 have "chain (nxt ?h2) (nxt ?h2 l1) (it # rest) None" by (simp add: is_list_def)
    with None show ?thesis by (simp only: if_True simp_thms) blast
  next
    case (Some f)
    then have "f \<in> set (l1 # it # rest)" by (rule find_in_list)
    moreover from l2 have "chain (nxt ?h2) (Some l1) (l1 # it # rest) None"
      by (simp add: is_list_def)
    ultimately have "\<exists>ps. chain (nxt ?h2) (Some f) ps None" by (rule chain_from_cell [rotated])
    with Some show ?thesis by simp
  qed
  then obtain ps1 where cps1: "chain (nxt ?h2) ?finder ps1 None" ..
  have sc1: "crc_scan ?h2 (Some l1) ?finder ?rv1
               = Some ((crc16 (data16 (dat ?h2 (info ?h2 l1))) ^^ length ps1) ?rv1)"
    using cps1 by (rule crc_scan_folds_head)
  have ne: "ret \<noteq> it" using dd by auto
  have nx: "(?nx2)(ret := ?nx2 it, it := Some ret) = nxt h1"
    using n2 ne by (auto simp: fun_eq_iff)
  have inf: "(((info h1)(it := info h1 ret))(ret := info h1 it))
               (ret := info h1 ret, it := info h1 it) = info h1"
    using ne by (auto simp: fun_eq_iff)
  have un: "core_list_undo_remove ?h2 (Some ret) (nxt ?h2 l1) = Some (Some ret, h1)"
    unfolding n21 using ne nx inf by (simp add: core_list_undo_remove_def Let_def)
  have y1ne: "ys1 \<noteq> []" using ys1 by simp
  have len31: "length ys1 < 2 ^ 31" using len1 assms(3) by simp
  have oci: "ordering_cmp (cmp_idx :: unit option list_cmp) (info h1 ` set ys1)
               (\<lambda>d res r. True) (\<lambda>d res x y. sint (idx (d x)) \<le> sint (idx (d y)))"
    by (rule ordering_cmp_idx)
  from mergesort_returns [OF l1 y1ne len31 oci, of None]
  obtain l4 h4 r4 ys4 where s2: "core_list_mergesort h1 (Some l1) cmp_idx (None :: unit option)
                                   = Some (Some l4, h4, r4)"
    and l4: "is_list h4 (Some l4) ys4"
    by blast
  from l4 obtain ps2 where cps2: "chain (nxt h4) (nxt h4 l4) ps2 None"
    by (cases ys4) (auto simp: is_list_def)
  have sc2: "crc_scan h4 (Some l4) (nxt h4 l4) r
               = Some ((crc16 (data16 (dat h4 (info h4 l4))) ^^ length ps2) r)" for r
    using cps2 by (rule crc_scan_folds_head)
  have "core_bench_list cmplx h list seed3 data0 res finder_idx
          = Some ((crc16 (data16 (dat h4 (info h4 l4))) ^^ length ps2)
                    ((crc16 (data16 (dat ?h2 (info ?h2 l1))) ^^ length ps1) ?rv1), h4, res1)"
    unfolding core_bench_list_def
    by (simp only: lp srt rm fd sc1 sc2 un s2 Let_def option.case prod.case)
  then show ?thesis by blast
qed

text \<open>What a run of \<open>core_bench_list\<close> that returns consists of.\<close>

lemma core_bench_list_run:
  assumes "core_bench_list cmplx h list seed3 data0 res finder_idx = Some (retval, h', res')"
  shows "\<exists>s h1 l1 remover h2 found_p ps1 remover' h3 r4 l4 ps2.
      bench_find_loop seed3
        \<lparr>b_heap = h, b_list = list, b_info = \<lparr>data16 = data0, idx = finder_idx\<rparr>,
         b_retval = 0, b_found = 0, b_missed = 0, b_i = 0\<rparr> = Some s
    \<and> (if 0 < sint finder_idx
        then core_list_mergesort (b_heap s) (b_list s) cmplx res
        else Some (b_list s, b_heap s, res)) = Some (Some l1, h1, res')
    \<and> core_list_remove h1 (nxt h1 l1) = Some (remover, h2)
    \<and> core_list_find h2 (Some l1) (b_info s) = Some found_p
    \<and> chain (nxt h2) (if found_p = None then nxt h2 l1 else found_p) ps1 None
    \<and> core_list_undo_remove h2 remover (nxt h2 l1) = Some (remover', h3)
    \<and> core_list_mergesort h3 (Some l1) cmp_idx (None :: unit option) = Some (Some l4, h', r4)
    \<and> chain (nxt h') (nxt h' l4) ps2 None
    \<and> crc_scan h2 (Some l1) (if found_p = None then nxt h2 l1 else found_p)
          (b_retval s + (b_found s * 4 - b_missed s))
        = Some ((crc16 (data16 (dat h2 (info h2 l1))) ^^ length ps1)
                  (b_retval s + (b_found s * 4 - b_missed s)))
    \<and> crc_scan h' (Some l4) (nxt h' l4)
          ((crc16 (data16 (dat h2 (info h2 l1))) ^^ length ps1)
             (b_retval s + (b_found s * 4 - b_missed s)))
        = Some retval
    \<and> retval = (crc16 (data16 (dat h' (info h' l4))) ^^ length ps2)
                 ((crc16 (data16 (dat h2 (info h2 l1))) ^^ length ps1)
                    (b_retval s + (b_found s * 4 - b_missed s)))"
proof -
  from assms obtain s where s: "bench_find_loop seed3
        \<lparr>b_heap = h, b_list = list, b_info = \<lparr>data16 = data0, idx = finder_idx\<rparr>,
         b_retval = 0, b_found = 0, b_missed = 0, b_i = 0\<rparr> = Some s"
    by (auto simp: core_bench_list_def split: option.splits)
  let ?rv1 = "b_retval s + (b_found s * 4 - b_missed s)"
  let ?srt = "if 0 < sint finder_idx
        then core_list_mergesort (b_heap s) (b_list s) cmplx res
        else Some (b_list s, b_heap s, res)"
  from assms s obtain list1 h1 res1 where srt: "?srt = Some (list1, h1, res1)"
    by (cases ?srt) (auto simp: core_bench_list_def Let_def split: option.splits)
  from assms s srt obtain l1 where l1: "list1 = Some l1"
    by (cases list1) (auto simp: core_bench_list_def Let_def split: option.splits)
  from assms s srt l1 obtain remover h2 where rm: "core_list_remove h1 (nxt h1 l1) = Some (remover, h2)"
    by (cases "core_list_remove h1 (nxt h1 l1)") (auto simp: core_bench_list_def Let_def)
  from assms s srt l1 rm obtain found_p where fd: "core_list_find h2 (Some l1) (b_info s) = Some found_p"
    by (cases "core_list_find h2 (Some l1) (b_info s)") (auto simp: core_bench_list_def Let_def)
  let ?finder = "if found_p = None then nxt h2 l1 else found_p"
  from assms s srt l1 rm fd obtain retval2 where sc1: "crc_scan h2 (Some l1) ?finder ?rv1 = Some retval2"
    by (cases "crc_scan h2 (Some l1) ?finder ?rv1") (auto simp: core_bench_list_def Let_def)
  from assms s srt l1 rm fd sc1 obtain remover' h3 where
    un: "core_list_undo_remove h2 remover (nxt h2 l1) = Some (remover', h3)"
    by (cases "core_list_undo_remove h2 remover (nxt h2 l1)") (auto simp: core_bench_list_def Let_def)
  from assms s srt l1 rm fd sc1 un obtain list4 h4 r4 where
    s2: "core_list_mergesort h3 (Some l1) cmp_idx (None :: unit option) = Some (list4, h4, r4)"
    by (cases "core_list_mergesort h3 (Some l1) cmp_idx (None :: unit option)")
      (auto simp: core_bench_list_def Let_def)
  from assms s srt l1 rm fd sc1 un s2 obtain l4 where l4: "list4 = Some l4"
    by (cases list4) (auto simp: core_bench_list_def Let_def)
  from assms s srt l1 rm fd sc1 un s2 l4 obtain retval3 where
    sc2: "crc_scan h4 (Some l4) (nxt h4 l4) retval2 = Some retval3"
    by (cases "crc_scan h4 (Some l4) (nxt h4 l4) retval2") (auto simp: core_bench_list_def Let_def)
  from assms s srt l1 rm fd sc1 un s2 l4 sc2 have res: "retval = retval3" "h' = h4" "res' = res1"
    by (simp_all add: core_bench_list_def Let_def)
  from crc_scan_returns [OF sc1] obtain ps1 where ch1: "chain (nxt h2) ?finder ps1 None"
    and r2: "retval2 = (crc16 (data16 (dat h2 (info h2 l1))) ^^ length ps1) ?rv1"
    by auto
  from crc_scan_returns [OF sc2] obtain ps2 where ch2: "chain (nxt h4) (nxt h4 l4) ps2 None"
    and r3: "retval3 = (crc16 (data16 (dat h4 (info h4 l4))) ^^ length ps2) retval2"
    by auto
  show ?thesis
  proof (intro exI conjI)
    show "bench_find_loop seed3
        \<lparr>b_heap = h, b_list = list, b_info = \<lparr>data16 = data0, idx = finder_idx\<rparr>,
         b_retval = 0, b_found = 0, b_missed = 0, b_i = 0\<rparr> = Some s" by (rule s)
    show "?srt = Some (Some l1, h1, res')" using srt l1 res by simp
    show "core_list_remove h1 (nxt h1 l1) = Some (remover, h2)" by (rule rm)
    show "core_list_find h2 (Some l1) (b_info s) = Some found_p" by (rule fd)
    show "chain (nxt h2) ?finder ps1 None" by (rule ch1)
    show "core_list_undo_remove h2 remover (nxt h2 l1) = Some (remover', h3)" by (rule un)
    show "core_list_mergesort h3 (Some l1) cmp_idx (None :: unit option) = Some (Some l4, h', r4)"
      using s2 l4 res by simp
    show "chain (nxt h') (nxt h' l4) ps2 None" using ch2 res by simp
    show "crc_scan h2 (Some l1) ?finder ?rv1
        = Some ((crc16 (data16 (dat h2 (info h2 l1))) ^^ length ps1) ?rv1)"
      using sc1 r2 by simp
    show "crc_scan h' (Some l4) (nxt h' l4)
          ((crc16 (data16 (dat h2 (info h2 l1))) ^^ length ps1) ?rv1) = Some retval"
      using sc2 r2 res by simp
    show "retval = (crc16 (data16 (dat h' (info h' l4))) ^^ length ps2)
                 ((crc16 (data16 (dat h2 (info h2 l1))) ^^ length ps1) ?rv1)"
      using r2 r3 res by simp
  qed
qed

text \<open>
  C9.  On a list of at least three and fewer than \<open>2^31\<close> cells, with a comparator in
  the place of \<open>cmp_complex\<close> that orders the records of the list, \<open>core_bench_list\<close>
  returns, and its run makes two scans.  The first starts, in the memory \<open>h2\<close> left by
  the remove, at the cell that \<open>core_list_find\<close> returned or, when it returned \<open>NULL\<close>,
  at the successor of the head \<open>l1\<close>, and walks the chain \<open>ps1\<close> from there to the end of
  the list.  The second starts, in the memory \<open>h'\<close> left by the undo and the sort by
  \<open>cmp_idx\<close>, at the successor of the head \<open>l4\<close> and walks the chain \<open>ps2\<close>.  Each scan
  applies \<open>crc16\<close> to the running value once for every cell it visits, every time with
  the \<open>data16\<close> of the record of the head and never with the record of the cell
  visited; the value that \<open>core_bench_list\<close> returns is the result of the second scan.
\<close>

theorem core_bench_list_scans:
  assumes "is_list h list xs" and "3 \<le> length xs" and "length xs < 2 ^ 31"
    and "ordering_cmp cmplx (info h ` set xs) settled le"
  shows "\<exists>retval h' res' s h1 l1 remover h2 found_p ps1 remover' h3 r4 l4 ps2.
      core_bench_list cmplx h list seed3 data0 res finder_idx = Some (retval, h', res')
    \<and> bench_find_loop seed3
        \<lparr>b_heap = h, b_list = list, b_info = \<lparr>data16 = data0, idx = finder_idx\<rparr>,
         b_retval = 0, b_found = 0, b_missed = 0, b_i = 0\<rparr> = Some s
    \<and> (if 0 < sint finder_idx
        then core_list_mergesort (b_heap s) (b_list s) cmplx res
        else Some (b_list s, b_heap s, res)) = Some (Some l1, h1, res')
    \<and> core_list_remove h1 (nxt h1 l1) = Some (remover, h2)
    \<and> core_list_find h2 (Some l1) (b_info s) = Some found_p
    \<and> chain (nxt h2) (if found_p = None then nxt h2 l1 else found_p) ps1 None
    \<and> core_list_undo_remove h2 remover (nxt h2 l1) = Some (remover', h3)
    \<and> core_list_mergesort h3 (Some l1) cmp_idx (None :: unit option) = Some (Some l4, h', r4)
    \<and> chain (nxt h') (nxt h' l4) ps2 None
    \<and> crc_scan h2 (Some l1) (if found_p = None then nxt h2 l1 else found_p)
          (b_retval s + (b_found s * 4 - b_missed s))
        = Some ((crc16 (data16 (dat h2 (info h2 l1))) ^^ length ps1)
                  (b_retval s + (b_found s * 4 - b_missed s)))
    \<and> crc_scan h' (Some l4) (nxt h' l4)
          ((crc16 (data16 (dat h2 (info h2 l1))) ^^ length ps1)
             (b_retval s + (b_found s * 4 - b_missed s)))
        = Some retval
    \<and> retval = (crc16 (data16 (dat h' (info h' l4))) ^^ length ps2)
                 ((crc16 (data16 (dat h2 (info h2 l1))) ^^ length ps1)
                    (b_retval s + (b_found s * 4 - b_missed s)))"
proof -
  from core_bench_list_returns [OF assms, of seed3 data0 res finder_idx]
  obtain retval h' res' where
    run: "core_bench_list cmplx h list seed3 data0 res finder_idx = Some (retval, h', res')"
    by blast
  from core_bench_list_run [OF run] run show ?thesis by blast
qed

text \<open>
  The six cells of \<open>heap6\<close> with \<open>cmp_complex\<close>, two searches and a positive
  \<open>finder_idx\<close>, so that the first sort runs.
\<close>

definition results0 :: core_results where
  "results0 = \<lparr>r_seed1 = 0, r_seed2 = 0, r_seed3 = 2, r_size = 0, r_state = [],
                r_mat = \<lparr>mat_N = 0, mat_A = [], mat_B = [], mat_C = []\<rparr>,
                r_crc = 0, r_crclist = 0, r_crcmatrix = 0, r_crcstate = 0, r_fault = False\<rparr>"

theorem core_bench_list_scans_witness:
  "is_list heap6 (Some 0) [0, 1, 2, 3, 4, 5] \<and> 3 \<le> length [0, 1, 2, 3, 4, 5 :: nat]
   \<and> ordering_cmp (cmp_complex has_float_macros) (info heap6 ` set [0, 1, 2, 3, 4, 5])
        (\<lambda>d res. cached d) (\<lambda>d res. cache_le d)
   \<and> (\<exists>retval h' res' s h1 l1 remover h2 found_p ps1 remover' h3 r4 l4 ps2.
      core_bench_list (cmp_complex has_float_macros) heap6 (Some 0) 2 0 results0 1
        = Some (retval, h', res')
    \<and> bench_find_loop 2
        \<lparr>b_heap = heap6, b_list = Some 0, b_info = \<lparr>data16 = 0, idx = 1\<rparr>,
         b_retval = 0, b_found = 0, b_missed = 0, b_i = 0\<rparr> = Some s
    \<and> (if 0 < sint (1 :: ee_s16)
        then core_list_mergesort (b_heap s) (b_list s) (cmp_complex has_float_macros) results0
        else Some (b_list s, b_heap s, results0)) = Some (Some l1, h1, res')
    \<and> core_list_remove h1 (nxt h1 l1) = Some (remover, h2)
    \<and> core_list_find h2 (Some l1) (b_info s) = Some found_p
    \<and> chain (nxt h2) (if found_p = None then nxt h2 l1 else found_p) ps1 None
    \<and> core_list_undo_remove h2 remover (nxt h2 l1) = Some (remover', h3)
    \<and> core_list_mergesort h3 (Some l1) cmp_idx (None :: unit option) = Some (Some l4, h', r4)
    \<and> chain (nxt h') (nxt h' l4) ps2 None
    \<and> crc_scan h2 (Some l1) (if found_p = None then nxt h2 l1 else found_p)
          (b_retval s + (b_found s * 4 - b_missed s))
        = Some ((crc16 (data16 (dat h2 (info h2 l1))) ^^ length ps1)
                  (b_retval s + (b_found s * 4 - b_missed s)))
    \<and> crc_scan h' (Some l4) (nxt h' l4)
          ((crc16 (data16 (dat h2 (info h2 l1))) ^^ length ps1)
             (b_retval s + (b_found s * 4 - b_missed s)))
        = Some retval
    \<and> retval = (crc16 (data16 (dat h' (info h' l4))) ^^ length ps2)
                 ((crc16 (data16 (dat h2 (info h2 l1))) ^^ length ps1)
                    (b_retval s + (b_found s * 4 - b_missed s))))"
proof -
  have l: "is_list heap6 (Some 0) [0, 1, 2, 3, 4, 5]"
    by (simp add: is_list_def heap6_def)
  have oc: "ordering_cmp (cmp_complex has_float_macros) (info heap6 ` set [0, 1, 2, 3, 4, 5])
        (\<lambda>d res. cached d) (\<lambda>d res. cache_le d)"
    by (rule ordering_cmp_complex)
  from core_bench_list_scans [OF l _ _ oc, of 2 0 results0 1] l oc
  show ?thesis by simp
qed

section \<open>The reference configuration\<close>

text \<open>
  \<open>main\<close> recognises a configuration by the checksum of the three seeds and the size
  of a block.  For the seeds 0, 0, \<open>0x66\<close> and blocks of 2000 bytes it is \<open>0x8a02\<close>,
  the first entry of the tables, whose \<open>list_known_crc\<close> is \<open>0xd4b0\<close>.
\<close>

lemma seedcrc_6k: "crc16 2000 (crc16 0x66 (crc16 0 (crc16 0 0))) = 0x8a02"
  by code_simp

end
